theory Spec2Isabelle
  imports Main "HOL-Library.Monad_Syntax" "HOL-Library.Char_ord" "HOL-Library.List_Lexorder"
begin

section \<open>The graph store of GenericDAG (typed\_dag.go)\<close>

text \<open>
  Vertex ids are Go strings. The vertex key is whatever \<open>options.VertexHashFunc\<close> returns for
  a payload; keys have type \<open>'k\<close>, payloads have type \<open>'v\<close>. The three locks of the struct
  (\<open>muDAG\<close>, \<open>muCache\<close>, \<open>verticesLocked\<close>) are left out: every public method runs under
  \<open>muDAG\<close>, and the model is the sequential behaviour of one call after the other.
\<close>

type_synonym vid = string

datatype 'v error =
    IDEmptyError
  | IDUnknownError vid
  | IDDuplicateError vid
  | VertexDuplicateError 'v
  | SrcDstEqualError vid vid
  | EdgeDuplicateError vid vid
  | EdgeUnknownError vid vid
  | EdgeLoopError vid vid

record ('k, 'v) GenericDAG =
  vertices :: "'k \<rightharpoonup> vid"
  vertexValues :: "vid \<rightharpoonup> 'v"
  inboundEdge :: "'k \<rightharpoonup> 'k set"
  outboundEdge :: "'k \<rightharpoonup> 'k set"
  ancestorsCache :: "'k \<rightharpoonup> 'k set"
  descendantsCache :: "'k \<rightharpoonup> 'k set"
  options :: "'v \<Rightarrow> 'k"

text \<open>
  \<open>NewGenericDAG\<close> creates the empty graph. The source installs \<open>defaultOptions()\<close> and lets
  the caller replace the hash function with \<open>Options\<close> before any other call; the model takes
  the hash function in force as the argument.
\<close>

definition NewGenericDAG :: "('v \<Rightarrow> 'k) \<Rightarrow> ('k, 'v) GenericDAG" where
  "NewGenericDAG h =
     \<lparr>vertices = Map.empty, vertexValues = Map.empty,
      inboundEdge = Map.empty, outboundEdge = Map.empty,
      ancestorsCache = Map.empty, descendantsCache = Map.empty,
      options = h\<rparr>"

definition hashVertex :: "('k, 'v) GenericDAG \<Rightarrow> 'v \<Rightarrow> 'k" where
  "hashVertex d v = options d v"

definition saneID :: "('k, 'v) GenericDAG \<Rightarrow> vid \<Rightarrow> 'v error option" where
  "saneID d i =
     (if i = [] then Some IDEmptyError
      else case vertexValues d i of
             None \<Rightarrow> Some (IDUnknownError i)
           | Some _ \<Rightarrow> None)"

text \<open>
  Go reads a missing key of a map of sets as the nil map, which ranges over nothing and
  ignores \<open>delete\<close>.
\<close>

definition at :: "('k \<rightharpoonup> 'k set) \<Rightarrow> 'k \<Rightarrow> 'k set" where
  "at m k = (case m k of None \<Rightarrow> {} | Some s \<Rightarrow> s)"

text \<open>\<open>for x := range s { delete(m, x) }\<close>\<close>

definition deleteKeys :: "('k \<rightharpoonup> 'a) \<Rightarrow> 'k set \<Rightarrow> ('k \<rightharpoonup> 'a)" where
  "deleteKeys m s = (\<lambda>k. if k \<in> s then None else m k)"

text \<open>\<open>delete(m[x], k)\<close>\<close>

definition deleteIn :: "('k \<rightharpoonup> 'k set) \<Rightarrow> 'k \<Rightarrow> 'k \<Rightarrow> ('k \<rightharpoonup> 'k set)" where
  "deleteIn m x k = m(x := map_option (\<lambda>t. t - {k}) (m x))"

text \<open>\<open>for x := range s { delete(m[x], k) }\<close>\<close>

definition deleteFrom :: "('k \<rightharpoonup> 'k set) \<Rightarrow> 'k set \<Rightarrow> 'k \<Rightarrow> ('k \<rightharpoonup> 'k set)" where
  "deleteFrom m s k = (\<lambda>x. if x \<in> s then map_option (\<lambda>t. t - {k}) (m x) else m x)"

text \<open>\<open>if _, exists := m[x]; !exists { m[x] = make(...) }; m[x][k] = struct{}{}\<close>\<close>

definition insertIn :: "('k \<rightharpoonup> 'k set) \<Rightarrow> 'k \<Rightarrow> 'k \<Rightarrow> ('k \<rightharpoonup> 'k set)" where
  "insertIn m x k = m(x \<mapsto> insert k (at m x))"

text \<open>\<open>d.vertices[k]\<close>, the empty string when the key is missing.\<close>

definition idOf :: "('k, 'v) GenericDAG \<Rightarrow> 'k \<Rightarrow> vid" where
  "idOf d k = (case vertices d k of None \<Rightarrow> [] | Some i \<Rightarrow> i)"

text \<open>
  The order in which Go's \<open>range\<close> walks a map is not specified. Where a loop's effect
  depends on it, the model takes the order as the argument \<open>rng\<close>, which lists a key set;
  \<open>range_ok\<close> says that it lists every key of a finite map exactly once.
\<close>

definition range_ok :: "('a set \<Rightarrow> 'a list) \<Rightarrow> bool" where
  "range_ok rng = (\<forall>s. finite s \<longrightarrow> set (rng s) = s \<and> distinct (rng s))"

primrec rangeM :: "('a \<Rightarrow> 's \<Rightarrow> 's option) \<Rightarrow> 'a list \<Rightarrow> 's \<Rightarrow> 's option" where
  "rangeM f [] s = Some s"
| "rangeM f (x # xs) s = Option.bind (f x s) (rangeM f xs)"

lemma rangeM_mono [partial_function_mono]:
  assumes "\<And>x s. mono_option (\<lambda>f. F f x s)"
  shows "mono_option (\<lambda>f. rangeM (F f) xs s)"
proof (induction xs arbitrary: s)
  case Nil
  show ?case by (simp add: option.const_mono)
next
  case (Cons x xs)
  show ?case
    unfolding rangeM.simps
    by (rule bind_mono [OF assms Cons.IH])
qed

subsection \<open>Vertices\<close>

definition addVertexByID ::
  "('k, 'v) GenericDAG \<Rightarrow> vid \<Rightarrow> 'v \<Rightarrow> 'v error option \<times> ('k, 'v) GenericDAG" where
  "addVertexByID d i v =
     (let vHash = hashVertex d v in
      if vertices d vHash \<noteq> None then (Some (VertexDuplicateError v), d)
      else if vertexValues d i \<noteq> None then (Some (IDDuplicateError i), d)
      else (None, d\<lparr>vertices := (vertices d)(vHash \<mapsto> i),
                     vertexValues := (vertexValues d)(i \<mapsto> v)\<rparr>))"

definition AddVertexByID ::
  "('k, 'v) GenericDAG \<Rightarrow> vid \<Rightarrow> 'v \<Rightarrow> 'v error option \<times> ('k, 'v) GenericDAG" where
  "AddVertexByID d i v = addVertexByID d i v"

text \<open>
  \<open>AddVertex\<close> takes the id from the payload's \<open>ID()\<close> method when it has one and a fresh
  UUID otherwise; \<open>newID\<close> is the string that this choice produced.
\<close>

definition addVertex ::
  "vid \<Rightarrow> ('k, 'v) GenericDAG \<Rightarrow> 'v \<Rightarrow> (vid \<times> 'v error option) \<times> ('k, 'v) GenericDAG" where
  "addVertex newID d v =
     (let i = newID; (err, d') = addVertexByID d i v in ((i, err), d'))"

definition AddVertex ::
  "vid \<Rightarrow> ('k, 'v) GenericDAG \<Rightarrow> 'v \<Rightarrow> (vid \<times> 'v error option) \<times> ('k, 'v) GenericDAG" where
  "AddVertex newID d v = addVertex newID d v"

subsection \<open>Edges and the loop check\<close>

definition isEdge :: "('k, 'v) GenericDAG \<Rightarrow> 'k \<Rightarrow> 'k \<Rightarrow> bool" where
  "isEdge d srcHash dstHash =
     (case outboundEdge d srcHash of
        None \<Rightarrow> False
      | Some out \<Rightarrow>
          if dstHash \<notin> out then False
          else case inboundEdge d dstHash of
                 None \<Rightarrow> False
               | Some inb \<Rightarrow> if srcHash \<notin> inb then False else True)"

definition IsEdge ::
  "('k, 'v) GenericDAG \<Rightarrow> vid \<Rightarrow> vid \<Rightarrow> bool \<times> 'v error option" where
  "IsEdge d srcID dstID =
     (case saneID d srcID of
        Some e \<Rightarrow> (False, Some e)
      | None \<Rightarrow>
     (case saneID d dstID of
        Some e \<Rightarrow> (False, Some e)
      | None \<Rightarrow>
     if srcID = dstID then (False, Some (SrcDstEqualError srcID dstID))
     else
       (case (vertexValues d srcID, vertexValues d dstID) of
          (Some src, Some dst) \<Rightarrow> (isEdge d (hashVertex d src) (hashVertex d dst), None)
        | _ \<Rightarrow> (False, Some (IDUnknownError srcID)))))"

text \<open>
  The inner loop of the breadth-first search: every child that is not yet in \<open>visited\<close> is
  marked and appended to the queue.
\<close>

definition enqueueNew :: "'k list \<Rightarrow> 'k list \<times> 'k set \<Rightarrow> 'k list \<times> 'k set" where
  "enqueueNew cs st =
     fold (\<lambda>child (fifo, visited).
             if child \<in> visited then (fifo, visited)
             else (fifo @ [child], insert child visited)) cs st"

partial_function (option) bfsLoop ::
  "('k set \<Rightarrow> 'k list) \<Rightarrow> ('k, 'v) GenericDAG \<Rightarrow> 'k \<Rightarrow> 'k list \<Rightarrow> 'k set \<Rightarrow> bool option" where
  "bfsLoop rng d srcHash fifo visited =
     (case fifo of
        [] \<Rightarrow> Some False
      | topKey # rest \<Rightarrow>
          if topKey = srcHash then Some True
          else (case enqueueNew (rng (at (outboundEdge d) topKey)) (rest, visited) of
                  (fifo', visited') \<Rightarrow> bfsLoop rng d srcHash fifo' visited'))"

definition wouldCreateLoop ::
  "('k set \<Rightarrow> 'k list) \<Rightarrow> ('k, 'v) GenericDAG \<Rightarrow> 'k \<Rightarrow> 'k \<Rightarrow> bool option" where
  "wouldCreateLoop rng d srcHash dstHash =
     (case enqueueNew (rng (at (outboundEdge d) dstHash)) ([], {}) of
        (fifo, visited) \<Rightarrow> bfsLoop rng d srcHash fifo visited)"

subsection \<open>The reachability cache\<close>

partial_function (option) getDescendants ::
  "('k set \<Rightarrow> 'k list) \<Rightarrow> ('k, 'v) GenericDAG \<Rightarrow> 'k \<Rightarrow> ('k set \<times> ('k, 'v) GenericDAG) option" where
  "getDescendants rng d vHash =
     (case descendantsCache d vHash of
        Some cache \<Rightarrow> Some (cache, d)
      | None \<Rightarrow>
          (case outboundEdge d vHash of
             None \<Rightarrow> Some ({}, d\<lparr>descendantsCache := (descendantsCache d)(vHash \<mapsto> {})\<rparr>)
           | Some children \<Rightarrow>
               Option.bind
                 (rangeM (\<lambda>child st.
                            Option.bind (getDescendants rng (snd st) child)
                              (\<lambda>r. Some (fst st \<union> fst r \<union> {child}, snd r)))
                         (rng children) ({}, d))
                 (\<lambda>st. Some (fst st,
                    (snd st)\<lparr>descendantsCache := (descendantsCache (snd st))(vHash \<mapsto> fst st)\<rparr>))))"

partial_function (option) getAncestors ::
  "('k set \<Rightarrow> 'k list) \<Rightarrow> ('k, 'v) GenericDAG \<Rightarrow> 'k \<Rightarrow> ('k set \<times> ('k, 'v) GenericDAG) option" where
  "getAncestors rng d vHash =
     (case ancestorsCache d vHash of
        Some cache \<Rightarrow> Some (cache, d)
      | None \<Rightarrow>
          (case inboundEdge d vHash of
             None \<Rightarrow> Some ({}, d\<lparr>ancestorsCache := (ancestorsCache d)(vHash \<mapsto> {})\<rparr>)
           | Some parents \<Rightarrow>
               Option.bind
                 (rangeM (\<lambda>parent st.
                            Option.bind (getAncestors rng (snd st) parent)
                              (\<lambda>r. Some (fst st \<union> fst r \<union> {parent}, snd r)))
                         (rng parents) ({}, d))
                 (\<lambda>st. Some (fst st,
                    (snd st)\<lparr>ancestorsCache := (ancestorsCache (snd st))(vHash \<mapsto> fst st)\<rparr>))))"


subsection \<open>The mutations\<close>

text \<open>
  A mutation returns \<open>None\<close> when the call does not return (the recursion of the cache
  build has no end on a cyclic store), and otherwise the error, if any, with the store
  after the call. After \<open>saneID\<close> has accepted an id its payload is in \<open>vertexValues\<close>, so
  the branch for a missing payload is never taken; it repeats the answer of \<open>saneID\<close>.
\<close>

definition AddEdge ::
  "('k set \<Rightarrow> 'k list) \<Rightarrow> ('k, 'v) GenericDAG \<Rightarrow> vid \<Rightarrow> vid
     \<Rightarrow> ('v error option \<times> ('k, 'v) GenericDAG) option" where
  "AddEdge rng d srcID dstID =
     (case saneID d srcID of
        Some e \<Rightarrow> Some (Some e, d)
      | None \<Rightarrow>
     (case saneID d dstID of
        Some e \<Rightarrow> Some (Some e, d)
      | None \<Rightarrow>
     if srcID = dstID then Some (Some (SrcDstEqualError srcID dstID), d)
     else
       (case (vertexValues d srcID, vertexValues d dstID) of
          (Some src, Some dst) \<Rightarrow>
            (let srcHash = hashVertex d src; dstHash = hashVertex d dst in
             if isEdge d srcHash dstHash then Some (Some (EdgeDuplicateError srcID dstID), d)
             else do {
               loop \<leftarrow> wouldCreateLoop rng d srcHash dstHash;
               if loop then Some (Some (EdgeLoopError srcID dstID), d)
               else do {
                 (descendants, d1) \<leftarrow> getDescendants rng d dstHash;
                 (ancestors, d2) \<leftarrow> getAncestors rng d1 srcHash;
                 let d3 = d2\<lparr>outboundEdge := insertIn (outboundEdge d2) srcHash dstHash\<rparr>;
                 let d4 = d3\<lparr>inboundEdge := insertIn (inboundEdge d3) dstHash srcHash\<rparr>;
                 let d5 = d4\<lparr>ancestorsCache :=
                             (deleteKeys (ancestorsCache d4) descendants)(dstHash := None)\<rparr>;
                 let d6 = d5\<lparr>descendantsCache :=
                             (deleteKeys (descendantsCache d5) ancestors)(srcHash := None)\<rparr>;
                 Some (None, d6)
               }
             })
        | _ \<Rightarrow> Some (Some (IDUnknownError srcID), d))))"

definition DeleteEdge ::
  "('k set \<Rightarrow> 'k list) \<Rightarrow> ('k, 'v) GenericDAG \<Rightarrow> vid \<Rightarrow> vid
     \<Rightarrow> ('v error option \<times> ('k, 'v) GenericDAG) option" where
  "DeleteEdge rng d srcID dstID =
     (case saneID d srcID of
        Some e \<Rightarrow> Some (Some e, d)
      | None \<Rightarrow>
     (case saneID d dstID of
        Some e \<Rightarrow> Some (Some e, d)
      | None \<Rightarrow>
     if srcID = dstID then Some (Some (SrcDstEqualError srcID dstID), d)
     else
       (case (vertexValues d srcID, vertexValues d dstID) of
          (Some src, Some dst) \<Rightarrow>
            (let srcHash = hashVertex d src; dstHash = hashVertex d dst in
             if \<not> isEdge d srcHash dstHash then Some (Some (EdgeUnknownError srcID dstID), d)
             else do {
               (descendants, d1) \<leftarrow> getDescendants rng d srcHash;
               (ancestors, d2) \<leftarrow> getAncestors rng d1 dstHash;
               let d3 = d2\<lparr>outboundEdge := deleteIn (outboundEdge d2) srcHash dstHash\<rparr>;
               let d4 = d3\<lparr>inboundEdge := deleteIn (inboundEdge d3) dstHash srcHash\<rparr>;
               let d5 = d4\<lparr>ancestorsCache :=
                           (deleteKeys (ancestorsCache d4) descendants)(srcHash := None)\<rparr>;
               let d6 = d5\<lparr>descendantsCache :=
                           (deleteKeys (descendantsCache d5) ancestors)(dstHash := None)\<rparr>;
               Some (None, d6)
             })
        | _ \<Rightarrow> Some (Some (IDUnknownError srcID), d))))"

definition DeleteVertex ::
  "('k set \<Rightarrow> 'k list) \<Rightarrow> ('k, 'v) GenericDAG \<Rightarrow> vid
     \<Rightarrow> ('v error option \<times> ('k, 'v) GenericDAG) option" where
  "DeleteVertex rng d i =
     (case saneID d i of
        Some e \<Rightarrow> Some (Some e, d)
      | None \<Rightarrow>
       (case vertexValues d i of
          Some v \<Rightarrow>
            (let vHash = hashVertex d v in
             do {
               (descendants, d1) \<leftarrow> getDescendants rng d vHash;
               (ancestors, d2) \<leftarrow> getAncestors rng d1 vHash;
               let d3 = d2\<lparr>outboundEdge :=
                           deleteFrom (outboundEdge d2) (at (inboundEdge d2) vHash) vHash\<rparr>;
               let d4 = d3\<lparr>inboundEdge :=
                           deleteFrom (inboundEdge d3) (at (outboundEdge d3) vHash) vHash\<rparr>;
               let d5 = d4\<lparr>inboundEdge := (inboundEdge d4)(vHash := None),
                            outboundEdge := (outboundEdge d4)(vHash := None)\<rparr>;
               let d6 = d5\<lparr>ancestorsCache :=
                           (deleteKeys (ancestorsCache d5) descendants)(vHash := None)\<rparr>;
               let d7 = d6\<lparr>descendantsCache :=
                           (deleteKeys (descendantsCache d6) ancestors)(vHash := None)\<rparr>;
               Some (None, d7\<lparr>vertices := (vertices d7)(vHash := None),
                                vertexValues := (vertexValues d7)(i := None)\<rparr>)
             })
        | None \<Rightarrow> Some (Some (IDUnknownError i), d)))"

definition flushCaches :: "('k, 'v) GenericDAG \<Rightarrow> ('k, 'v) GenericDAG" where
  "flushCaches d = d\<lparr>ancestorsCache := Map.empty, descendantsCache := Map.empty\<rparr>"

definition FlushCaches :: "('k, 'v) GenericDAG \<Rightarrow> ('k, 'v) GenericDAG" where
  "FlushCaches d = flushCaches d"


subsection \<open>Queries\<close>

text \<open>
  The queries return Go maps from ids to payloads. The model returns the key set of such a
  map; the payload stored under an id \<open>i\<close> of it is \<open>vertexValues d i\<close>. On an error the
  source returns the nil map, here the empty set.
\<close>

text \<open>\<open>for k := range m { if p(k) { ... } }\<close>: the keys of \<open>m\<close> that pass the test.\<close>

definition keysWhere :: "('k \<Rightarrow> bool) \<Rightarrow> ('k \<rightharpoonup> 'a) \<Rightarrow> 'k set" where
  "keysWhere p m = {k \<in> dom m. p k}"

definition getRoots :: "('k, 'v) GenericDAG \<Rightarrow> vid set" where
  "getRoots d = idOf d ` keysWhere (\<lambda>vHash. at (inboundEdge d) vHash = {}) (vertices d)"

definition getLeaves :: "('k, 'v) GenericDAG \<Rightarrow> vid set" where
  "getLeaves d = idOf d ` keysWhere (\<lambda>vHash. at (outboundEdge d) vHash = {}) (vertices d)"

definition getChildren :: "('k, 'v) GenericDAG \<Rightarrow> vid \<Rightarrow> vid set \<times> 'v error option" where
  "getChildren d i =
     (case saneID d i of
        Some e \<Rightarrow> ({}, Some e)
      | None \<Rightarrow>
          (case vertexValues d i of
             Some v \<Rightarrow> (idOf d ` at (outboundEdge d) (hashVertex d v), None)
           | None \<Rightarrow> ({}, Some (IDUnknownError i))))"

definition GetParents :: "('k, 'v) GenericDAG \<Rightarrow> vid \<Rightarrow> vid set \<times> 'v error option" where
  "GetParents d i =
     (case saneID d i of
        Some e \<Rightarrow> ({}, Some e)
      | None \<Rightarrow>
          (case vertexValues d i of
             Some v \<Rightarrow> (idOf d ` at (inboundEdge d) (hashVertex d v), None)
           | None \<Rightarrow> ({}, Some (IDUnknownError i))))"

definition GetDescendants ::
  "('k set \<Rightarrow> 'k list) \<Rightarrow> ('k, 'v) GenericDAG \<Rightarrow> vid
     \<Rightarrow> ((vid set \<times> 'v error option) \<times> ('k, 'v) GenericDAG) option" where
  "GetDescendants rng d i =
     (case saneID d i of
        Some e \<Rightarrow> Some (({}, Some e), d)
      | None \<Rightarrow>
          (case vertexValues d i of
             Some v \<Rightarrow>
               do {
                 (ds, d1) \<leftarrow> getDescendants rng d (hashVertex d v);
                 Some ((idOf d1 ` ds, None), d1)
               }
           | None \<Rightarrow> Some (({}, Some (IDUnknownError i)), d)))"

definition GetAncestors ::
  "('k set \<Rightarrow> 'k list) \<Rightarrow> ('k, 'v) GenericDAG \<Rightarrow> vid
     \<Rightarrow> ((vid set \<times> 'v error option) \<times> ('k, 'v) GenericDAG) option" where
  "GetAncestors rng d i =
     (case saneID d i of
        Some e \<Rightarrow> Some (({}, Some e), d)
      | None \<Rightarrow>
          (case vertexValues d i of
             Some v \<Rightarrow>
               do {
                 (as, d1) \<leftarrow> getAncestors rng d (hashVertex d v);
                 Some ((idOf d1 ` as, None), d1)
               }
           | None \<Rightarrow> Some (({}, Some (IDUnknownError i)), d)))"

text \<open>\<open>getSize\<close> adds up the sizes of the sets of \<open>outboundEdge\<close>.\<close>

definition getSize :: "('k, 'v) GenericDAG \<Rightarrow> nat" where
  "getSize d = (\<Sum>k \<in> dom (outboundEdge d). card (at (outboundEdge d) k))"

subsection \<open>Transitive reduction\<close>

text \<open>
  One round of the loop over the vertices: the descendants cached for the children of
  \<open>vHash\<close> are collected, and every child found among them loses its edge from \<open>vHash\<close> in
  both adjacency maps. The flag says whether an edge was removed.
\<close>

definition reduceVertex :: "('k, 'v) GenericDAG \<Rightarrow> 'k \<Rightarrow> ('k, 'v) GenericDAG \<times> bool" where
  "reduceVertex d vHash =
     (let descendantsOfChildrenOfV =
            (\<Union>childOfV \<in> at (outboundEdge d) vHash. at (descendantsCache d) childOfV);
          removed = at (outboundEdge d) vHash \<inter> descendantsOfChildrenOfV
      in (d\<lparr>outboundEdge :=
              (outboundEdge d)(vHash := map_option (\<lambda>s. s - removed) (outboundEdge d vHash)),
            inboundEdge := deleteFrom (inboundEdge d) removed vHash\<rparr>,
          removed \<noteq> {}))"

definition ReduceTransitively ::
  "('k set \<Rightarrow> 'k list) \<Rightarrow> (vid set \<Rightarrow> vid list) \<Rightarrow> ('k, 'v) GenericDAG
     \<Rightarrow> ('k, 'v) GenericDAG option" where
  "ReduceTransitively rng rngI d =
     do {
       d1 \<leftarrow> rangeM (\<lambda>i d'. case vertexValues d i of
                                None \<Rightarrow> Some d'
                              | Some root \<Rightarrow>
                                  map_option snd (getDescendants rng d' (hashVertex d' root)))
                    (rngI (getRoots d)) d;
       let (d2, graphChanged) =
             fold (\<lambda>vHash (d', changed).
                     let (d'', c) = reduceVertex d' vHash in (d'', changed \<or> c))
                  (rng (dom (vertices d1))) (d1, False);
       Some (if graphChanged then flushCaches d2 else d2)
     }"

subsection \<open>Sequences of calls\<close>

datatype 'v call =
    CallAddVertex vid 'v
  | CallAddVertexByID vid 'v
  | CallAddEdge vid vid
  | CallDeleteEdge vid vid
  | CallDeleteVertex vid
  | CallReduceTransitively
  | CallFlushCaches
  | CallGetDescendants vid
  | CallGetAncestors vid

text \<open>
  \<open>perform\<close> runs one public method and gives the error it returned, if any, with the store
  after it; \<open>performAll\<close> runs a sequence of them, each on the store the one before left, whether
  that one returned an error or not.
\<close>

fun perform ::
  "('k set \<Rightarrow> 'k list) \<Rightarrow> (vid set \<Rightarrow> vid list) \<Rightarrow> ('k, 'v) GenericDAG \<Rightarrow> 'v call
     \<Rightarrow> ('v error option \<times> ('k, 'v) GenericDAG) option" where
  "perform rng rngI d (CallAddVertex newID v) =
     (case AddVertex newID d v of ((_, err), d') \<Rightarrow> Some (err, d'))"
| "perform rng rngI d (CallAddVertexByID i v) = Some (AddVertexByID d i v)"
| "perform rng rngI d (CallAddEdge srcID dstID) = AddEdge rng d srcID dstID"
| "perform rng rngI d (CallDeleteEdge srcID dstID) = DeleteEdge rng d srcID dstID"
| "perform rng rngI d (CallDeleteVertex i) = DeleteVertex rng d i"
| "perform rng rngI d CallReduceTransitively =
     map_option (\<lambda>d'. (None, d')) (ReduceTransitively rng rngI d)"
| "perform rng rngI d CallFlushCaches = Some (None, FlushCaches d)"
| "perform rng rngI d (CallGetDescendants i) =
     map_option (\<lambda>((_, err), d'). (err, d')) (GetDescendants rng d i)"
| "perform rng rngI d (CallGetAncestors i) =
     map_option (\<lambda>((_, err), d'). (err, d')) (GetAncestors rng d i)"

fun performAll ::
  "('k set \<Rightarrow> 'k list) \<Rightarrow> (vid set \<Rightarrow> vid list) \<Rightarrow> ('k, 'v) GenericDAG \<Rightarrow> 'v call list
     \<Rightarrow> ('k, 'v) GenericDAG option" where
  "performAll rng rngI d [] = Some d"
| "performAll rng rngI d (c # cs) =
     (case perform rng rngI d c of
        None \<Rightarrow> None
      | Some (_, d') \<Rightarrow> performAll rng rngI d' cs)"

section \<open>The walks (generic\_visitor.go and the visitor file of the legacy DAG)\<close>

text \<open>
  A visitor is called with a payload and an id. The model records the calls as the list of
  the ids in the order of the calls; the payload that goes with an id \<open>i\<close> is
  \<open>vertexValues d i\<close>. Stacks and queues are lists; the head of a stack is its top, the head
  of a queue is the element dequeued next.
\<close>

text \<open>\<open>vertexIDsGeneric\<close> collects the keys of a map in the order in which \<open>range\<close> walks it.\<close>

definition vertexIDsGeneric :: "(vid set \<Rightarrow> vid list) \<Rightarrow> vid set \<Rightarrow> vid list" where
  "vertexIDsGeneric rngI vs = rngI vs"

text \<open>\<open>vertexIDs\<close> of the legacy DAG collects the keys and then calls \<open>sort.Strings\<close>.\<close>

definition vertexIDs :: "(vid set \<Rightarrow> vid list) \<Rightarrow> vid set \<Rightarrow> vid list" where
  "vertexIDs rngI vs = sort (rngI vs)"

definition reversedVertexIDs :: "(vid set \<Rightarrow> vid list) \<Rightarrow> vid set \<Rightarrow> vid list" where
  "reversedVertexIDs rngI vs = rev (vertexIDs rngI vs)"

subsection \<open>Depth first\<close>

text \<open>
  \<open>GenericDFSWalk\<close> pushes \<open>ids[len-1]\<close> first and \<open>ids[0]\<close> last, so \<open>ids[0]\<close> is on top;
  of the children only those not yet visited are pushed.
\<close>

partial_function (option) genericDFSLoop ::
  "(vid set \<Rightarrow> vid list) \<Rightarrow> ('k, 'v) GenericDAG \<Rightarrow> vid list \<Rightarrow> vid set \<Rightarrow> vid list
     \<Rightarrow> vid list option" where
  "genericDFSLoop rngI d stack visited trace =
     (case stack of
        [] \<Rightarrow> Some trace
      | i # rest \<Rightarrow>
          (let visited' = (if i \<notin> visited then insert i visited else visited);
               trace' = (if i \<notin> visited then trace @ [i] else trace);
               childIDs = vertexIDsGeneric rngI (fst (getChildren d i))
           in genericDFSLoop rngI d
                (rev (filter (\<lambda>childID. childID \<notin> visited') (rev childIDs)) @ rest)
                visited' trace'))"

definition GenericDFSWalk ::
  "(vid set \<Rightarrow> vid list) \<Rightarrow> ('k, 'v) GenericDAG \<Rightarrow> vid list option" where
  "GenericDFSWalk rngI d =
     genericDFSLoop rngI d (rev (rev (vertexIDsGeneric rngI (getRoots d)))) {} []"

text \<open>
  Modelled from the spec: the legacy \<open>DAG\<close> struct and its methods \<open>getRoots\<close>, \<open>getChildren\<close>
  and \<open>GetParents\<close> are not among the sources. The spec gives the legacy and the generic
  graph one data model and one set of queries (sections 3 and 4.5), so the legacy walks
  below, whose code is among the sources, run on the store and the queries of \<open>GenericDAG\<close>.
\<close>

partial_function (option) dfsLoop ::
  "(vid set \<Rightarrow> vid list) \<Rightarrow> ('k, 'v) GenericDAG \<Rightarrow> vid list \<Rightarrow> vid set \<Rightarrow> vid list
     \<Rightarrow> vid list option" where
  "dfsLoop rngI d stack visited trace =
     (case stack of
        [] \<Rightarrow> Some trace
      | i # rest \<Rightarrow>
          (let visited' = (if i \<notin> visited then insert i visited else visited);
               trace' = (if i \<notin> visited then trace @ [i] else trace)
           in dfsLoop rngI d
                (rev (reversedVertexIDs rngI (fst (getChildren d i))) @ rest)
                visited' trace'))"

definition DFSWalk ::
  "(vid set \<Rightarrow> vid list) \<Rightarrow> ('k, 'v) GenericDAG \<Rightarrow> vid list option" where
  "DFSWalk rngI d = dfsLoop rngI d (rev (reversedVertexIDs rngI (getRoots d))) {} []"

subsection \<open>Topological order\<close>

text \<open>
  A dequeued id that is already visited is dropped; one with a parent not yet visited goes
  back to the end of the queue; otherwise it is visited and its children are enqueued,
  in \<open>GenericOrderedWalk\<close> only those not yet visited.
\<close>

partial_function (option) genericOrderedLoop ::
  "(vid set \<Rightarrow> vid list) \<Rightarrow> ('k, 'v) GenericDAG \<Rightarrow> vid list \<Rightarrow> vid set \<Rightarrow> vid list
     \<Rightarrow> vid list option" where
  "genericOrderedLoop rngI d queue visited trace =
     (case queue of
        [] \<Rightarrow> Some trace
      | i # rest \<Rightarrow>
          if i \<in> visited then genericOrderedLoop rngI d rest visited trace
          else if \<exists>parent \<in> fst (GetParents d i). parent \<notin> visited
          then genericOrderedLoop rngI d (rest @ [i]) visited trace
          else (let visited' = insert i visited;
                    childIDs = vertexIDsGeneric rngI (fst (getChildren d i))
                in genericOrderedLoop rngI d
                     (rest @ filter (\<lambda>childID. childID \<notin> visited') childIDs)
                     visited' (trace @ [i])))"

definition GenericOrderedWalk ::
  "(vid set \<Rightarrow> vid list) \<Rightarrow> ('k, 'v) GenericDAG \<Rightarrow> vid list option" where
  "GenericOrderedWalk rngI d =
     genericOrderedLoop rngI d (vertexIDsGeneric rngI (getRoots d)) {} []"

partial_function (option) orderedLoop ::
  "(vid set \<Rightarrow> vid list) \<Rightarrow> ('k, 'v) GenericDAG \<Rightarrow> vid list \<Rightarrow> vid set \<Rightarrow> vid list
     \<Rightarrow> vid list option" where
  "orderedLoop rngI d queue visited trace =
     (case queue of
        [] \<Rightarrow> Some trace
      | i # rest \<Rightarrow>
          if i \<in> visited then orderedLoop rngI d rest visited trace
          else if \<exists>parent \<in> fst (GetParents d i). parent \<notin> visited
          then orderedLoop rngI d (rest @ [i]) visited trace
          else orderedLoop rngI d
                 (rest @ vertexIDs rngI (fst (getChildren d i)))
                 (insert i visited) (trace @ [i]))"

definition OrderedWalk ::
  "(vid set \<Rightarrow> vid list) \<Rightarrow> ('k, 'v) GenericDAG \<Rightarrow> vid list option" where
  "OrderedWalk rngI d = orderedLoop rngI d (vertexIDs rngI (getRoots d)) {} []"

text \<open>\<open>a\<close> is visited, and earlier than \<open>b\<close>, in the trace \<open>tr\<close>.\<close>

definition before :: "'a list \<Rightarrow> 'a \<Rightarrow> 'a \<Rightarrow> bool" where
  "before tr a b = (b \<in> set tr \<and> a \<in> set (takeWhile (\<lambda>x. x \<noteq> b) tr))"

section \<open>Serialisation of GenericDAG (generic\_marshal.go)\<close>

text \<open>
  The storable form lists the vertices as pairs of id and payload and the edges as pairs
  of source id and destination id. \<open>json.Marshal\<close> and \<open>json.Unmarshal\<close> are the codec of the
  host and are taken to carry the storable form unchanged, so \<open>MarshalJSON\<close> returns the
  form and \<open>UnmarshalGenericJSON\<close> starts from it.
\<close>

record 'v GenericStorableDAG =
  Vertices :: "(vid \<times> 'v) list"
  Edges :: "(vid \<times> vid) list"

text \<open>
  The state of \<open>GenericMarshalVisitor\<close>: the two lists and its own \<open>visited\<close> set.
\<close>

record 'v GenericMarshalVisitor =
  mvVertices :: "(vid \<times> 'v) list"
  mvEdges :: "(vid \<times> vid) list"
  mvVisited :: "vid set"

definition NewGenericMarshalVisitor :: "'v GenericMarshalVisitor" where
  "NewGenericMarshalVisitor = \<lparr>mvVertices = [], mvEdges = [], mvVisited = {}\<rparr>"

text \<open>
  \<open>Visit\<close> gets \<open>d.vertexValues[id]\<close> from the walk. An id on the stack always has a payload;
  the model leaves the vertex list as it is for an id without one.
\<close>

definition Visit ::
  "'v GenericMarshalVisitor \<Rightarrow> 'v option \<Rightarrow> vid \<Rightarrow> 'v GenericMarshalVisitor" where
  "Visit mv val i =
     (if i \<notin> mvVisited mv
      then (case val of
              Some v \<Rightarrow> mv\<lparr>mvVisited := insert i (mvVisited mv),
                          mvVertices := mvVertices mv @ [(i, v)]\<rparr>
            | None \<Rightarrow> mv\<lparr>mvVisited := insert i (mvVisited mv)\<rparr>)
      else mv)"

definition AddEdges ::
  "(vid set \<Rightarrow> vid list) \<Rightarrow> 'v GenericMarshalVisitor \<Rightarrow> vid \<Rightarrow> vid set
     \<Rightarrow> 'v GenericMarshalVisitor" where
  "AddEdges rngI mv parentID children =
     mv\<lparr>mvEdges := mvEdges mv @ map (\<lambda>childID. (parentID, childID)) (rngI children)\<rparr>"

partial_function (option) marshalLoop ::
  "(vid set \<Rightarrow> vid list) \<Rightarrow> ('k, 'v) GenericDAG \<Rightarrow> vid list \<Rightarrow> vid set
     \<Rightarrow> 'v GenericMarshalVisitor \<Rightarrow> 'v GenericMarshalVisitor option" where
  "marshalLoop rngI d stack visited visitor =
     (case stack of
        [] \<Rightarrow> Some visitor
      | i # rest \<Rightarrow>
          (let visited' = (if i \<notin> visited then insert i visited else visited);
               visitor1 = (if i \<notin> visited then Visit visitor (vertexValues d i) i else visitor);
               children = fst (getChildren d i);
               visitor2 = AddEdges rngI visitor1 i children;
               childIDs = vertexIDsGeneric rngI children
           in marshalLoop rngI d
                (rev (filter (\<lambda>childID. childID \<notin> visited') (rev childIDs)) @ rest)
                visited' visitor2))"

definition MarshalJSON ::
  "(vid set \<Rightarrow> vid list) \<Rightarrow> ('k, 'v) GenericDAG \<Rightarrow> 'v GenericStorableDAG option" where
  "MarshalJSON rngI d =
     do {
       visitor \<leftarrow> marshalLoop rngI d (rev (rev (vertexIDsGeneric rngI (getRoots d)))) {}
                   NewGenericMarshalVisitor;
       Some \<lparr>Vertices = mvVertices visitor, Edges = mvEdges visitor\<rparr>
     }"

text \<open>
  \<open>UnmarshalGenericJSON\<close> adds the vertices and then the edges to a new graph and stops at
  the first error. The result is \<open>None\<close> when a call does not return.
\<close>

fun addAllVertices ::
  "('k, 'v) GenericDAG \<Rightarrow> (vid \<times> 'v) list \<Rightarrow> 'v error + ('k, 'v) GenericDAG" where
  "addAllVertices g [] = Inr g"
| "addAllVertices g ((i, v) # vs) =
     (case AddVertexByID g i v of
        (Some err, _) \<Rightarrow> Inl err
      | (None, g') \<Rightarrow> addAllVertices g' vs)"

fun addAllEdges ::
  "('k set \<Rightarrow> 'k list) \<Rightarrow> ('k, 'v) GenericDAG \<Rightarrow> (vid \<times> vid) list
     \<Rightarrow> ('v error + ('k, 'v) GenericDAG) option" where
  "addAllEdges rng g [] = Some (Inr g)"
| "addAllEdges rng g ((s, t) # es) =
     (case AddEdge rng g s t of
        None \<Rightarrow> None
      | Some (Some err, _) \<Rightarrow> Some (Inl err)
      | Some (None, g') \<Rightarrow> addAllEdges rng g' es)"

definition UnmarshalGenericJSON ::
  "('k set \<Rightarrow> 'k list) \<Rightarrow> 'v GenericStorableDAG \<Rightarrow> ('v \<Rightarrow> 'k)
     \<Rightarrow> ('v error + ('k, 'v) GenericDAG) option" where
  "UnmarshalGenericJSON rng dag h =
     (case addAllVertices (NewGenericDAG h) (Vertices dag) of
        Inl err \<Rightarrow> Some (Inl err)
      | Inr g \<Rightarrow> addAllEdges rng g (Edges dag))"

section \<open>Invariants of the store\<close>

definition edges :: "('k, 'v) GenericDAG \<Rightarrow> ('k \<times> 'k) set" where
  "edges d = {(a, b). b \<in> at (outboundEdge d) a}"

definition bfs_inv :: "('k \<times> 'k) set \<Rightarrow> 'k \<Rightarrow> 'k \<Rightarrow> 'k list \<Rightarrow> 'k set \<Rightarrow> bool" where
  "bfs_inv r srcHash dstHash fifo visited =
     (set fifo \<subseteq> visited
      \<and> visited \<subseteq> r\<^sup>+ `` {dstHash}
      \<and> r `` {dstHash} \<subseteq> visited
      \<and> (\<forall>x \<in> visited - set fifo. r `` {x} \<subseteq> visited)
      \<and> srcHash \<notin> visited - set fifo)"

definition parents :: "('k, 'v) GenericDAG \<Rightarrow> ('k \<times> 'k) set" where
  "parents d = {(b, a). a \<in> at (inboundEdge d) b}"

definition desc_ok :: "('k, 'v) GenericDAG \<Rightarrow> bool" where
  "desc_ok d = (\<forall>k s. descendantsCache d k = Some s \<longrightarrow> s = (edges d)\<^sup>+ `` {k})"

definition anc_ok :: "('k, 'v) GenericDAG \<Rightarrow> bool" where
  "anc_ok d = (\<forall>k s. ancestorsCache d k = Some s \<longrightarrow> s = (parents d)\<^sup>+ `` {k})"

definition symmetric_adj :: "('k, 'v) GenericDAG \<Rightarrow> bool" where
  "symmetric_adj d = (\<forall>a b. b \<in> at (outboundEdge d) a \<longleftrightarrow> a \<in> at (inboundEdge d) b)"

definition index_ok :: "('k, 'v) GenericDAG \<Rightarrow> bool" where
  "index_ok d =
     ((\<forall>k i. vertices d k = Some i \<longrightarrow> (\<exists>v. vertexValues d i = Some v \<and> hashVertex d v = k))
      \<and> (\<forall>i v. vertexValues d i = Some v \<longrightarrow> vertices d (hashVertex d v) = Some i))"

definition store_ok :: "('k, 'v) GenericDAG \<Rightarrow> bool" where
  "store_ok d =
     (finite (dom (vertices d))
      \<and> index_ok d
      \<and> symmetric_adj d
      \<and> (\<forall>a b. (a, b) \<in> edges d \<longrightarrow> a \<in> dom (vertices d) \<and> b \<in> dom (vertices d))
      \<and> (\<forall>a b. (a, b) \<in> edges d \<longrightarrow> idOf d a \<noteq> [] \<and> idOf d b \<noteq> [])
      \<and> acyclic (edges d))"

definition cache_ok :: "('k, 'v) GenericDAG \<Rightarrow> bool" where
  "cache_ok d =
     ((\<forall>k s. descendantsCache d k = Some s \<longrightarrow> s = {b. (k, b) \<in> (edges d)\<^sup>+})
      \<and> (\<forall>k s. ancestorsCache d k = Some s \<longrightarrow> s = {a. (a, k) \<in> (edges d)\<^sup>+}))"

text \<open>What one round of the reduction loop keeps true.\<close>

definition reduce_inv ::
  "('k, 'v) GenericDAG \<Rightarrow> ('k, 'v) GenericDAG \<times> bool \<Rightarrow> bool" where
  "reduce_inv d1 st =
     (case st of (d', changed) \<Rightarrow>
        vertices d' = vertices d1 \<and> vertexValues d' = vertexValues d1 \<and> options d' = options d1
        \<and> descendantsCache d' = descendantsCache d1 \<and> ancestorsCache d' = ancestorsCache d1
        \<and> symmetric_adj d'
        \<and> edges d' \<subseteq> edges d1
        \<and> (\<forall>a b. (a, b) \<in> edges d1 \<longrightarrow> (a, b) \<notin> edges d' \<longrightarrow>
               (\<exists>m. (a, m) \<in> edges d1 \<and> (m, b) \<in> (edges d1)\<^sup>+))
        \<and> (\<not> changed \<longrightarrow> d' = d1))"

text \<open>
  The invariant of the topological walk over a set \<open>L\<close> of ids with the edges \<open>E\<close>: the
  trace lists the visited ids once each, a visited id has all its parents before it in the
  trace, and every id that is not visited but has all its parents visited is in the queue.
\<close>

definition ready :: "('a \<times> 'a) set \<Rightarrow> 'a set \<Rightarrow> 'a \<Rightarrow> bool" where
  "ready E V x = (x \<notin> V \<and> (\<forall>p. (p, x) \<in> E \<longrightarrow> p \<in> V))"

definition walk_inv ::
  "('a \<times> 'a) set \<Rightarrow> 'a set \<Rightarrow> 'a list \<Rightarrow> 'a set \<Rightarrow> 'a list \<Rightarrow> bool" where
  "walk_inv E L q V t =
     (set t = V \<and> distinct t \<and> V \<subseteq> L \<and> set q \<subseteq> L
      \<and> (\<forall>b \<in> V. \<forall>a. (a, b) \<in> E \<longrightarrow> before t a b)
      \<and> (\<forall>i \<in> L - V. ready E V i \<longrightarrow> i \<in> set q))"

text \<open>The edges of the store between ids instead of keys.\<close>

definition idEdges :: "('k, 'v) GenericDAG \<Rightarrow> (vid \<times> vid) set" where
  "idEdges d = (\<lambda>(a, b). (idOf d a, idOf d b)) ` edges d"

section \<open>Example stores\<close>

text \<open>
  In the examples a payload is its own key, and Go's \<open>range\<close> happens to list keys in
  ascending order.
\<close>

definition oneVertex :: "(string, string) GenericDAG" where
  "oneVertex = snd (AddVertexByID (NewGenericDAG (\<lambda>v. v)) ''a'' ''a'')"

text \<open>The chain 1 \<rightarrow> 2 \<rightarrow> 3 \<rightarrow> 4 \<rightarrow> 5, and the store that the calls building it leave.\<close>

definition chainCalls :: "string call list" where
  "chainCalls =
     [CallAddVertexByID ''1'' ''1'', CallAddVertexByID ''2'' ''2'', CallAddVertexByID ''3'' ''3'',
      CallAddVertexByID ''4'' ''4'', CallAddVertexByID ''5'' ''5'',
      CallAddEdge ''1'' ''2'', CallAddEdge ''2'' ''3'', CallAddEdge ''3'' ''4'',
      CallAddEdge ''4'' ''5'']"

definition chain :: "(string, string) GenericDAG" where
  "chain =
     \<lparr>vertices = [''1'' \<mapsto> ''1'', ''2'' \<mapsto> ''2'', ''3'' \<mapsto> ''3'', ''4'' \<mapsto> ''4'', ''5'' \<mapsto> ''5''],
      vertexValues =
        [''1'' \<mapsto> ''1'', ''2'' \<mapsto> ''2'', ''3'' \<mapsto> ''3'', ''4'' \<mapsto> ''4'', ''5'' \<mapsto> ''5''],
      inboundEdge = [''2'' \<mapsto> {''1''}, ''3'' \<mapsto> {''2''}, ''4'' \<mapsto> {''3''}, ''5'' \<mapsto> {''4''}],
      outboundEdge = [''1'' \<mapsto> {''2''}, ''2'' \<mapsto> {''3''}, ''3'' \<mapsto> {''4''}, ''4'' \<mapsto> {''5''}],
      ancestorsCache =
        [''1'' \<mapsto> {}, ''2'' \<mapsto> {''1''}, ''3'' \<mapsto> {''2'', ''1''}, ''4'' \<mapsto> {''3'', ''2'', ''1''}],
      descendantsCache = [''5'' \<mapsto> {}],
      options = (\<lambda>v. v)\<rparr>"

text \<open>Vertices 1, 2, 3 with the edges 1 \<rightarrow> 2, 2 \<rightarrow> 3 and 1 \<rightarrow> 3, before and after the reduction.\<close>

definition triangleCalls :: "string call list" where
  "triangleCalls =
     [CallAddVertexByID ''1'' ''1'', CallAddVertexByID ''2'' ''2'', CallAddVertexByID ''3'' ''3'',
      CallAddEdge ''1'' ''2'', CallAddEdge ''2'' ''3'', CallAddEdge ''1'' ''3'']"

definition triangle :: "(string, string) GenericDAG" where
  "triangle =
     \<lparr>vertices = [''1'' \<mapsto> ''1'', ''2'' \<mapsto> ''2'', ''3'' \<mapsto> ''3''],
      vertexValues = [''1'' \<mapsto> ''1'', ''2'' \<mapsto> ''2'', ''3'' \<mapsto> ''3''],
      inboundEdge = [''2'' \<mapsto> {''1''}, ''3'' \<mapsto> {''1'', ''2''}],
      outboundEdge = [''2'' \<mapsto> {''3''}, ''1'' \<mapsto> {''3'', ''2''}],
      ancestorsCache = [''1'' \<mapsto> {}, ''2'' \<mapsto> {''1''}],
      descendantsCache = [''3'' \<mapsto> {}],
      options = (\<lambda>v. v)\<rparr>"

definition triangleReduced :: "(string, string) GenericDAG" where
  "triangleReduced =
     \<lparr>vertices = [''1'' \<mapsto> ''1'', ''2'' \<mapsto> ''2'', ''3'' \<mapsto> ''3''],
      vertexValues = [''1'' \<mapsto> ''1'', ''2'' \<mapsto> ''2'', ''3'' \<mapsto> ''3''],
      inboundEdge = [''2'' \<mapsto> {''1''}, ''3'' \<mapsto> {''2''}],
      outboundEdge = [''1'' \<mapsto> {''2''}, ''2'' \<mapsto> {''3''}],
      ancestorsCache = Map.empty,
      descendantsCache = Map.empty,
      options = (\<lambda>v. v)\<rparr>"

text \<open>Two vertices, one edge, and a query that fills a cache entry.\<close>

definition cachedCalls :: "string call list" where
  "cachedCalls =
     [CallAddVertexByID ''a'' ''a'', CallAddVertexByID ''b'' ''b'', CallAddEdge ''a'' ''b'',
      CallGetDescendants ''a'', CallGetAncestors ''b'']"

definition cached :: "(string, string) GenericDAG" where
  "cached =
     \<lparr>vertices = [''a'' \<mapsto> ''a'', ''b'' \<mapsto> ''b''],
      vertexValues = [''a'' \<mapsto> ''a'', ''b'' \<mapsto> ''b''],
      inboundEdge = [''b'' \<mapsto> {''a''}],
      outboundEdge = [''a'' \<mapsto> {''b''}],
      ancestorsCache = [''a'' \<mapsto> {}, ''b'' \<mapsto> {''a''}],
      descendantsCache = [''b'' \<mapsto> {}, ''a'' \<mapsto> {''b''}],
      options = (\<lambda>v. v)\<rparr>"

text \<open>Two vertices a and b and no edge: both are roots.\<close>

definition twoRootsCalls :: "string call list" where
  "twoRootsCalls = [CallAddVertexByID ''a'' ''a'', CallAddVertexByID ''b'' ''b'']"

definition twoRoots :: "(string, string) GenericDAG" where
  "twoRoots =
     \<lparr>vertices = [''a'' \<mapsto> ''a'', ''b'' \<mapsto> ''b''],
      vertexValues = [''a'' \<mapsto> ''a'', ''b'' \<mapsto> ''b''],
      inboundEdge = Map.empty, outboundEdge = Map.empty,
      ancestorsCache = Map.empty, descendantsCache = Map.empty,
      options = (\<lambda>v. v)\<rparr>"

text \<open>
  The edges a \<rightarrow> b, a \<rightarrow> c, b \<rightarrow> c and c \<rightarrow> d: the vertex c is a child of a and of its
  sibling b, and has a child of its own.
\<close>

definition sharedChildCalls :: "string call list" where
  "sharedChildCalls =
     [CallAddVertexByID ''a'' ''a'', CallAddVertexByID ''b'' ''b'', CallAddVertexByID ''c'' ''c'',
      CallAddVertexByID ''d'' ''d'',
      CallAddEdge ''a'' ''b'', CallAddEdge ''a'' ''c'', CallAddEdge ''b'' ''c'',
      CallAddEdge ''c'' ''d'']"

definition sharedChild :: "(string, string) GenericDAG" where
  "sharedChild =
     \<lparr>vertices = [''a'' \<mapsto> ''a'', ''b'' \<mapsto> ''b'', ''c'' \<mapsto> ''c'', ''d'' \<mapsto> ''d''],
      vertexValues = [''a'' \<mapsto> ''a'', ''b'' \<mapsto> ''b'', ''c'' \<mapsto> ''c'', ''d'' \<mapsto> ''d''],
      inboundEdge = [''b'' \<mapsto> {''a''}, ''c'' \<mapsto> {''b'', ''a''}, ''d'' \<mapsto> {''c''}],
      outboundEdge = [''a'' \<mapsto> {''c'', ''b''}, ''b'' \<mapsto> {''c''}, ''c'' \<mapsto> {''d''}],
      ancestorsCache = [''a'' \<mapsto> {}, ''b'' \<mapsto> {''a''}, ''c'' \<mapsto> {''b'', ''a''}],
      descendantsCache = [''d'' \<mapsto> {}],
      options = (\<lambda>v. v)\<rparr>"

text \<open>What \<open>MarshalJSON\<close> emits for it when \<open>range\<close> lists b before c.\<close>

definition sharedChildStored :: "string GenericStorableDAG" where
  "sharedChildStored =
     \<lparr>Vertices = [(''a'', ''a''), (''b'', ''b''), (''c'', ''c''), (''d'', ''d'')],
      Edges = [(''a'', ''b''), (''a'', ''c''), (''b'', ''c''), (''c'', ''d''), (''c'', ''d'')]\<rparr>"

text \<open>
  The edges a \<rightarrow> b, a \<rightarrow> c and c \<rightarrow> b: the child b of a comes before its other parent c
  in the order of the ids.
\<close>

definition requeueCalls :: "string call list" where
  "requeueCalls =
     [CallAddVertexByID ''a'' ''a'', CallAddVertexByID ''b'' ''b'', CallAddVertexByID ''c'' ''c'',
      CallAddEdge ''a'' ''b'', CallAddEdge ''a'' ''c'', CallAddEdge ''c'' ''b'']"

definition requeue :: "(string, string) GenericDAG" where
  "requeue =
     \<lparr>vertices = [''a'' \<mapsto> ''a'', ''b'' \<mapsto> ''b'', ''c'' \<mapsto> ''c''],
      vertexValues = [''a'' \<mapsto> ''a'', ''b'' \<mapsto> ''b'', ''c'' \<mapsto> ''c''],
      inboundEdge = [''c'' \<mapsto> {''a''}, ''b'' \<mapsto> {''c'', ''a''}],
      outboundEdge = [''a'' \<mapsto> {''c'', ''b''}, ''c'' \<mapsto> {''b''}],
      ancestorsCache = [''a'' \<mapsto> {}, ''c'' \<mapsto> {''a''}],
      descendantsCache = [''b'' \<mapsto> {}],
      options = (\<lambda>v. v)\<rparr>"

lemma at_outbound_edges: "at (outboundEdge d) k = edges d `` {k}"
  by (auto simp: edges_def)

lemma enqueueNew_Nil: "enqueueNew [] st = st"
  by (simp add: enqueueNew_def)

lemma enqueueNew_Cons:
  "enqueueNew (c # cs) (fifo, visited) =
     (if c \<in> visited then enqueueNew cs (fifo, visited)
      else enqueueNew cs (fifo @ [c], insert c visited))"
  by (simp add: enqueueNew_def)

lemma enqueueNew_result:
  "enqueueNew cs (fifo, visited) = (fifo', visited') \<Longrightarrow>
     visited' = visited \<union> set cs
     \<and> set fifo' = set fifo \<union> (set cs - visited)
     \<and> length fifo' = length fifo + card (set cs - visited)"
proof (induction cs arbitrary: fifo visited)
  case Nil
  then show ?case by (simp add: enqueueNew_Nil)
next
  case (Cons c cs)
  show ?case
  proof (cases "c \<in> visited")
    case True
    with Cons.prems have "enqueueNew cs (fifo, visited) = (fifo', visited')"
      by (simp add: enqueueNew_Cons)
    from Cons.IH [OF this] True show ?thesis
      by (auto simp: insert_Diff_if)
  next
    case False
    with Cons.prems have "enqueueNew cs (fifo @ [c], insert c visited) = (fifo', visited')"
      by (simp add: enqueueNew_Cons)
    from Cons.IH [OF this]
    have v: "visited' = insert c visited \<union> set cs"
      and f: "set fifo' = set (fifo @ [c]) \<union> (set cs - insert c visited)"
      and l: "length fifo' = length (fifo @ [c]) + card (set cs - insert c visited)"
      by blast+
    have eq: "set (c # cs) - visited = insert c (set cs - insert c visited)"
      using False by auto
    have "card (set (c # cs) - visited) = Suc (card (set cs - insert c visited))"
      unfolding eq by (subst card_insert_disjoint) auto
    with v f l show ?thesis
      using False by auto
  qed
qed

lemma bfs_inv_closed:
  assumes "bfs_inv r srcHash dstHash [] visited"
  shows "visited = r\<^sup>+ `` {dstHash}"
proof
  show "visited \<subseteq> r\<^sup>+ `` {dstHash}" using assms by (simp add: bfs_inv_def)
  show "r\<^sup>+ `` {dstHash} \<subseteq> visited"
  proof
    fix x assume "x \<in> r\<^sup>+ `` {dstHash}"
    then have "(dstHash, x) \<in> r\<^sup>+" by simp
    then show "x \<in> visited"
    proof (induction rule: trancl_induct)
      case (base y)
      with assms show ?case by (auto simp: bfs_inv_def)
    next
      case (step y z)
      with assms show ?case by (auto simp: bfs_inv_def)
    qed
  qed
qed

lemma bfsLoop_correct:
  assumes ok: "range_ok rng" and fin: "finite (edges d)"
  shows "bfs_inv (edges d) srcHash dstHash fifo visited \<Longrightarrow>
         bfsLoop rng d srcHash fifo visited = Some (srcHash \<in> (edges d)\<^sup>+ `` {dstHash})"
proof (induction "2 * card ((edges d)\<^sup>+ `` {dstHash} - visited) + length fifo"
       arbitrary: fifo visited rule: less_induct)
  case less
  let ?r = "edges d"
  note inv = less.prems
  have finR: "finite (?r\<^sup>+ `` {dstHash})"
    using fin by (meson finite_Image finite_trancl)
  show ?case
  proof (cases fifo)
    case Nil
    with inv have "visited = ?r\<^sup>+ `` {dstHash}" by (simp add: bfs_inv_closed)
    moreover from inv Nil have "srcHash \<notin> visited" by (simp add: bfs_inv_def)
    ultimately show ?thesis using Nil by (subst bfsLoop.simps) simp
  next
    case (Cons t rest)
    show ?thesis
    proof (cases "t = srcHash")
      case True
      with inv Cons have "srcHash \<in> ?r\<^sup>+ `` {dstHash}" by (auto simp: bfs_inv_def)
      with True Cons show ?thesis by (subst bfsLoop.simps) simp
    next
      case False
      let ?cs = "rng (at (outboundEdge d) t)"
      have finC: "finite (at (outboundEdge d) t)"
        unfolding at_outbound_edges using fin by (simp add: finite_Image)
      with ok have cs: "set ?cs = ?r `` {t}"
        by (simp add: range_ok_def at_outbound_edges)
      obtain fifo' visited' where e: "enqueueNew ?cs (rest, visited) = (fifo', visited')"
        by (cases "enqueueNew ?cs (rest, visited)")
      from enqueueNew_result [OF e] cs
      have v': "visited' = visited \<union> ?r `` {t}"
        and f': "set fifo' = set rest \<union> (?r `` {t} - visited)"
        and l': "length fifo' = length rest + card (?r `` {t} - visited)"
        by simp_all
      have tv: "t \<in> visited" and tr: "t \<in> ?r\<^sup>+ `` {dstHash}"
        using inv Cons by (auto simp: bfs_inv_def)
      have sub: "?r `` {t} \<subseteq> ?r\<^sup>+ `` {dstHash}"
        using tr by (auto intro: trancl_into_trancl)
      have inv': "bfs_inv ?r srcHash dstHash fifo' visited'"
        unfolding bfs_inv_def
      proof (intro conjI)
        show "set fifo' \<subseteq> visited'" using inv Cons v' f' by (auto simp: bfs_inv_def)
        show "visited' \<subseteq> ?r\<^sup>+ `` {dstHash}" using inv v' sub by (auto simp: bfs_inv_def)
        show "?r `` {dstHash} \<subseteq> visited'" using inv v' by (auto simp: bfs_inv_def)
        show "\<forall>x\<in>visited' - set fifo'. ?r `` {x} \<subseteq> visited'"
        proof
          fix x assume x: "x \<in> visited' - set fifo'"
          then have "x \<in> visited" "x \<notin> set rest" using v' f' by auto
          then have "x = t \<or> x \<in> visited - set fifo" using Cons by auto
          then show "?r `` {x} \<subseteq> visited'"
            using inv v' by (auto simp: bfs_inv_def)
        qed
        show "srcHash \<notin> visited' - set fifo'"
        proof
          assume x: "srcHash \<in> visited' - set fifo'"
          then have "srcHash \<in> visited" "srcHash \<notin> set rest" using v' f' by auto
          then have "srcHash = t \<or> srcHash \<in> visited - set fifo" using Cons by auto
          with False inv show False by (auto simp: bfs_inv_def)
        qed
      qed
      let ?U = "?r\<^sup>+ `` {dstHash}"
      have split: "?U - visited = (?U - visited') \<union> (?r `` {t} - visited)"
        using v' sub by auto
      have disj: "(?U - visited') \<inter> (?r `` {t} - visited) = {}"
        using v' by auto
      have "card (?U - visited) = card (?U - visited') + card (?r `` {t} - visited)"
      proof -
        have "finite (?U - visited')" using finR by simp
        moreover have "finite (?r `` {t} - visited)"
          using finC by (simp add: at_outbound_edges)
        ultimately show ?thesis
          unfolding split using disj by (simp add: card_Un_disjoint)
      qed
      then have less: "2 * card (?U - visited') + length fifo' < 2 * card (?U - visited) + length fifo"
        using l' Cons by simp
      have "bfsLoop rng d srcHash fifo' visited' = Some (srcHash \<in> ?U)"
        by (rule less.hyps [OF less inv'])
      with False Cons e show ?thesis by (subst bfsLoop.simps) simp
    qed
  qed
qed

lemma wouldCreateLoop_correct:
  assumes ok: "range_ok rng" and fin: "finite (edges d)"
  shows "wouldCreateLoop rng d srcHash dstHash = Some ((dstHash, srcHash) \<in> (edges d)\<^sup>+)"
proof -
  let ?r = "edges d"
  let ?cs = "rng (at (outboundEdge d) dstHash)"
  have finC: "finite (at (outboundEdge d) dstHash)"
    unfolding at_outbound_edges using fin by (simp add: finite_Image)
  with ok have cs: "set ?cs = ?r `` {dstHash}"
    by (simp add: range_ok_def at_outbound_edges)
  obtain fifo visited where e: "enqueueNew ?cs ([], {}) = (fifo, visited)"
    by (cases "enqueueNew ?cs ([], {})")
  from enqueueNew_result [OF e] cs
  have v: "visited = ?r `` {dstHash}" and f: "set fifo = ?r `` {dstHash}" by simp_all
  have "bfs_inv ?r srcHash dstHash fifo visited"
    unfolding bfs_inv_def v f by auto
  from bfsLoop_correct [OF ok fin this] e show ?thesis
    by (simp add: wouldCreateLoop_def)
qed

lemma at_inbound_parents: "at (inboundEdge d) k = parents d `` {k}"
  by (auto simp: parents_def)

lemma edges_cache_upd [simp]:
  "edges (d\<lparr>descendantsCache := c\<rparr>) = edges d"
  "edges (d\<lparr>ancestorsCache := c\<rparr>) = edges d"
  "parents (d\<lparr>descendantsCache := c\<rparr>) = parents d"
  "parents (d\<lparr>ancestorsCache := c\<rparr>) = parents d"
  by (simp_all add: edges_def parents_def)

lemma trancl_image_unfold: "r\<^sup>+ `` {k} = (\<Union>x \<in> r `` {k}. r\<^sup>+ `` {x} \<union> {x})"
proof (intro equalityI subsetI)
  fix y assume "y \<in> r\<^sup>+ `` {k}"
  then have "(k, y) \<in> r\<^sup>+" by simp
  then show "y \<in> (\<Union>x \<in> r `` {k}. r\<^sup>+ `` {x} \<union> {x})"
    by (cases rule: converse_tranclE) auto
next
  fix y assume "y \<in> (\<Union>x \<in> r `` {k}. r\<^sup>+ `` {x} \<union> {x})"
  then show "y \<in> r\<^sup>+ `` {k}" by (auto intro: trancl_into_trancl2)
qed

lemma getDescendants_correct_aux:
  fixes d :: "('k, 'v) GenericDAG"
  assumes ok: "range_ok rng" and fin: "finite r" and acyc: "acyclic r"
  shows "edges d = r \<Longrightarrow> desc_ok d \<Longrightarrow>
         \<exists>c. getDescendants rng d k = Some (r\<^sup>+ `` {k}, d\<lparr>descendantsCache := c\<rparr>)
             \<and> descendantsCache d \<subseteq>\<^sub>m c
             \<and> (\<forall>x s. c x = Some s \<longrightarrow> s = r\<^sup>+ `` {x})"
proof (induction k arbitrary: d rule: wf_induct_rule [OF finite_acyclic_wf_converse [OF fin acyc]])
  case (1 k)
  note IH = "1.IH" and ed = \<open>edges d = r\<close> and dok = \<open>desc_ok d\<close>
  show ?case
  proof (cases "descendantsCache d k")
    case (Some cache)
    with dok ed have "cache = r\<^sup>+ `` {k}" by (simp add: desc_ok_def)
    moreover have "d\<lparr>descendantsCache := descendantsCache d\<rparr> = d" by simp
    ultimately have "getDescendants rng d k
        = Some (r\<^sup>+ `` {k}, d\<lparr>descendantsCache := descendantsCache d\<rparr>)"
      using Some by (subst getDescendants.simps) simp
    moreover have "\<forall>x s. descendantsCache d x = Some s \<longrightarrow> s = r\<^sup>+ `` {x}"
      using dok ed by (simp add: desc_ok_def)
    ultimately show ?thesis by (intro exI [of _ "descendantsCache d"]) simp
  next
    case None
    let ?F = "\<lambda>child st. Option.bind (getDescendants rng (snd st) child)
                (\<lambda>r. Some (fst st \<union> fst r \<union> {child}, snd r))"
    have inner: "set cs \<subseteq> r `` {k} \<Longrightarrow> edges d1 = r \<Longrightarrow> desc_ok d1 \<Longrightarrow>
        \<exists>c. rangeM ?F cs (acc, d1)
               = Some (acc \<union> (\<Union>x \<in> set cs. r\<^sup>+ `` {x} \<union> {x}), d1\<lparr>descendantsCache := c\<rparr>)
            \<and> descendantsCache d1 \<subseteq>\<^sub>m c
            \<and> (\<forall>x s. c x = Some s \<longrightarrow> s = r\<^sup>+ `` {x})"
      for cs acc and d1 :: "('k, 'v) GenericDAG"
    proof (induction cs arbitrary: acc d1)
      case Nil
      have "d1\<lparr>descendantsCache := descendantsCache d1\<rparr> = d1" by simp
      moreover have "\<forall>x s. descendantsCache d1 x = Some s \<longrightarrow> s = r\<^sup>+ `` {x}"
        using Nil.prems by (simp add: desc_ok_def)
      ultimately show ?case by (intro exI [of _ "descendantsCache d1"]) simp
    next
      case (Cons x xs)
      from Cons.prems(1) have xk: "(x, k) \<in> r\<inverse>" by auto
      from IH [OF xk Cons.prems(2,3)] obtain c1 where
        g: "getDescendants rng d1 x = Some (r\<^sup>+ `` {x}, d1\<lparr>descendantsCache := c1\<rparr>)"
        and le1: "descendantsCache d1 \<subseteq>\<^sub>m c1"
        and c1: "\<forall>y s. c1 y = Some s \<longrightarrow> s = r\<^sup>+ `` {y}" by blast
      let ?d2 = "d1\<lparr>descendantsCache := c1\<rparr>"
      have "edges ?d2 = r" using Cons.prems(2) by simp
      moreover have "desc_ok ?d2" using c1 Cons.prems(2) by (simp add: desc_ok_def)
      moreover have "set xs \<subseteq> r `` {k}" using Cons.prems(1) by simp
      ultimately obtain c2 where
        r2: "rangeM ?F xs (acc \<union> r\<^sup>+ `` {x} \<union> {x}, ?d2)
               = Some (acc \<union> r\<^sup>+ `` {x} \<union> {x} \<union> (\<Union>y \<in> set xs. r\<^sup>+ `` {y} \<union> {y}),
                       ?d2\<lparr>descendantsCache := c2\<rparr>)"
        and le2: "descendantsCache ?d2 \<subseteq>\<^sub>m c2"
        and c2: "\<forall>y s. c2 y = Some s \<longrightarrow> s = r\<^sup>+ `` {y}"
        using Cons.IH [of ?d2 "acc \<union> r\<^sup>+ `` {x} \<union> {x}"] by blast
      have "rangeM ?F (x # xs) (acc, d1)
              = Some (acc \<union> (\<Union>y \<in> set (x # xs). r\<^sup>+ `` {y} \<union> {y}), d1\<lparr>descendantsCache := c2\<rparr>)"
        using g r2 by (simp add: Un_assoc)
      moreover have "descendantsCache d1 \<subseteq>\<^sub>m c2"
        using le1 le2 by (auto intro: map_le_trans)
      ultimately show ?case using c2 by blast
    qed
    show ?thesis
    proof (cases "outboundEdge d k")
      case out: None
      then have "r `` {k} = {}" using ed by (auto simp: edges_def at_def)
      then have e: "r\<^sup>+ `` {k} = {}" by (subst trancl_image_unfold) simp
      let ?c = "(descendantsCache d)(k \<mapsto> {})"
      have "getDescendants rng d k = Some (r\<^sup>+ `` {k}, d\<lparr>descendantsCache := ?c\<rparr>)"
        using None out e by (subst getDescendants.simps) simp
      moreover have "descendantsCache d \<subseteq>\<^sub>m ?c" using None by (auto simp: map_le_def dom_def)
      moreover have "\<forall>x s. ?c x = Some s \<longrightarrow> s = r\<^sup>+ `` {x}"
        using dok ed e by (auto simp: desc_ok_def)
      ultimately show ?thesis by blast
    next
      case out: (Some children)
      then have ch: "children = r `` {k}" using ed by (auto simp: edges_def at_def)
      have "finite children" unfolding ch using fin by (simp add: finite_Image)
      with ok have cs: "set (rng children) = r `` {k}" by (simp add: range_ok_def ch)
      from inner [of "rng children" d "{}"] cs ed dok obtain c where
        r1: "rangeM ?F (rng children) ({}, d)
               = Some (\<Union>x \<in> r `` {k}. r\<^sup>+ `` {x} \<union> {x}, d\<lparr>descendantsCache := c\<rparr>)"
        and le: "descendantsCache d \<subseteq>\<^sub>m c"
        and c: "\<forall>y s. c y = Some s \<longrightarrow> s = r\<^sup>+ `` {y}"
        by auto
      let ?c = "c(k \<mapsto> r\<^sup>+ `` {k})"
      have "getDescendants rng d k = Some (r\<^sup>+ `` {k}, d\<lparr>descendantsCache := ?c\<rparr>)"
        using None out r1 trancl_image_unfold [of r k]
        by (subst getDescendants.simps) simp
      moreover have "descendantsCache d \<subseteq>\<^sub>m ?c"
        using le None by (auto simp: map_le_def dom_def)
      moreover have "\<forall>x s. ?c x = Some s \<longrightarrow> s = r\<^sup>+ `` {x}" using c by auto
      ultimately show ?thesis by blast
    qed
  qed
qed

lemma getAncestors_correct_aux:
  fixes d :: "('k, 'v) GenericDAG"
  assumes ok: "range_ok rng" and fin: "finite r" and acyc: "acyclic r"
  shows "parents d = r \<Longrightarrow> anc_ok d \<Longrightarrow>
         \<exists>c. getAncestors rng d k = Some (r\<^sup>+ `` {k}, d\<lparr>ancestorsCache := c\<rparr>)
             \<and> ancestorsCache d \<subseteq>\<^sub>m c
             \<and> (\<forall>x s. c x = Some s \<longrightarrow> s = r\<^sup>+ `` {x})"
proof (induction k arbitrary: d rule: wf_induct_rule [OF finite_acyclic_wf_converse [OF fin acyc]])
  case (1 k)
  note IH = "1.IH" and ed = \<open>parents d = r\<close> and dok = \<open>anc_ok d\<close>
  show ?case
  proof (cases "ancestorsCache d k")
    case (Some cache)
    with dok ed have "cache = r\<^sup>+ `` {k}" by (simp add: anc_ok_def)
    moreover have "d\<lparr>ancestorsCache := ancestorsCache d\<rparr> = d" by simp
    ultimately have "getAncestors rng d k
        = Some (r\<^sup>+ `` {k}, d\<lparr>ancestorsCache := ancestorsCache d\<rparr>)"
      using Some by (subst getAncestors.simps) simp
    moreover have "\<forall>x s. ancestorsCache d x = Some s \<longrightarrow> s = r\<^sup>+ `` {x}"
      using dok ed by (simp add: anc_ok_def)
    ultimately show ?thesis by (intro exI [of _ "ancestorsCache d"]) simp
  next
    case None
    let ?F = "\<lambda>child st. Option.bind (getAncestors rng (snd st) child)
                (\<lambda>r. Some (fst st \<union> fst r \<union> {child}, snd r))"
    have inner: "set cs \<subseteq> r `` {k} \<Longrightarrow> parents d1 = r \<Longrightarrow> anc_ok d1 \<Longrightarrow>
        \<exists>c. rangeM ?F cs (acc, d1)
               = Some (acc \<union> (\<Union>x \<in> set cs. r\<^sup>+ `` {x} \<union> {x}), d1\<lparr>ancestorsCache := c\<rparr>)
            \<and> ancestorsCache d1 \<subseteq>\<^sub>m c
            \<and> (\<forall>x s. c x = Some s \<longrightarrow> s = r\<^sup>+ `` {x})"
      for cs acc and d1 :: "('k, 'v) GenericDAG"
    proof (induction cs arbitrary: acc d1)
      case Nil
      have "d1\<lparr>ancestorsCache := ancestorsCache d1\<rparr> = d1" by simp
      moreover have "\<forall>x s. ancestorsCache d1 x = Some s \<longrightarrow> s = r\<^sup>+ `` {x}"
        using Nil.prems by (simp add: anc_ok_def)
      ultimately show ?case by (intro exI [of _ "ancestorsCache d1"]) simp
    next
      case (Cons x xs)
      from Cons.prems(1) have xk: "(x, k) \<in> r\<inverse>" by auto
      from IH [OF xk Cons.prems(2,3)] obtain c1 where
        g: "getAncestors rng d1 x = Some (r\<^sup>+ `` {x}, d1\<lparr>ancestorsCache := c1\<rparr>)"
        and le1: "ancestorsCache d1 \<subseteq>\<^sub>m c1"
        and c1: "\<forall>y s. c1 y = Some s \<longrightarrow> s = r\<^sup>+ `` {y}" by blast
      let ?d2 = "d1\<lparr>ancestorsCache := c1\<rparr>"
      have "parents ?d2 = r" using Cons.prems(2) by simp
      moreover have "anc_ok ?d2" using c1 Cons.prems(2) by (simp add: anc_ok_def)
      moreover have "set xs \<subseteq> r `` {k}" using Cons.prems(1) by simp
      ultimately obtain c2 where
        r2: "rangeM ?F xs (acc \<union> r\<^sup>+ `` {x} \<union> {x}, ?d2)
               = Some (acc \<union> r\<^sup>+ `` {x} \<union> {x} \<union> (\<Union>y \<in> set xs. r\<^sup>+ `` {y} \<union> {y}),
                       ?d2\<lparr>ancestorsCache := c2\<rparr>)"
        and le2: "ancestorsCache ?d2 \<subseteq>\<^sub>m c2"
        and c2: "\<forall>y s. c2 y = Some s \<longrightarrow> s = r\<^sup>+ `` {y}"
        using Cons.IH [of ?d2 "acc \<union> r\<^sup>+ `` {x} \<union> {x}"] by blast
      have "rangeM ?F (x # xs) (acc, d1)
              = Some (acc \<union> (\<Union>y \<in> set (x # xs). r\<^sup>+ `` {y} \<union> {y}), d1\<lparr>ancestorsCache := c2\<rparr>)"
        using g r2 by (simp add: Un_assoc)
      moreover have "ancestorsCache d1 \<subseteq>\<^sub>m c2"
        using le1 le2 by (auto intro: map_le_trans)
      ultimately show ?case using c2 by blast
    qed
    show ?thesis
    proof (cases "inboundEdge d k")
      case out: None
      then have "r `` {k} = {}" using ed by (auto simp: parents_def at_def)
      then have e: "r\<^sup>+ `` {k} = {}" by (subst trancl_image_unfold) simp
      let ?c = "(ancestorsCache d)(k \<mapsto> {})"
      have "getAncestors rng d k = Some (r\<^sup>+ `` {k}, d\<lparr>ancestorsCache := ?c\<rparr>)"
        using None out e by (subst getAncestors.simps) simp
      moreover have "ancestorsCache d \<subseteq>\<^sub>m ?c" using None by (auto simp: map_le_def dom_def)
      moreover have "\<forall>x s. ?c x = Some s \<longrightarrow> s = r\<^sup>+ `` {x}"
        using dok ed e by (auto simp: anc_ok_def)
      ultimately show ?thesis by blast
    next
      case out: (Some parentKeys)
      then have ch: "parentKeys = r `` {k}" using ed by (auto simp: parents_def at_def)
      have "finite parentKeys" unfolding ch using fin by (simp add: finite_Image)
      with ok have cs: "set (rng parentKeys) = r `` {k}" by (simp add: range_ok_def ch)
      from inner [of "rng parentKeys" d "{}"] cs ed dok obtain c where
        r1: "rangeM ?F (rng parentKeys) ({}, d)
               = Some (\<Union>x \<in> r `` {k}. r\<^sup>+ `` {x} \<union> {x}, d\<lparr>ancestorsCache := c\<rparr>)"
        and le: "ancestorsCache d \<subseteq>\<^sub>m c"
        and c: "\<forall>y s. c y = Some s \<longrightarrow> s = r\<^sup>+ `` {y}"
        by auto
      let ?c = "c(k \<mapsto> r\<^sup>+ `` {k})"
      have "getAncestors rng d k = Some (r\<^sup>+ `` {k}, d\<lparr>ancestorsCache := ?c\<rparr>)"
        using None out r1 trancl_image_unfold [of r k]
        by (subst getAncestors.simps) simp
      moreover have "ancestorsCache d \<subseteq>\<^sub>m ?c"
        using le None by (auto simp: map_le_def dom_def)
      moreover have "\<forall>x s. ?c x = Some s \<longrightarrow> s = r\<^sup>+ `` {x}" using c by auto
      ultimately show ?thesis by blast
    qed
  qed
qed

lemma symmetric_adj_parents: "symmetric_adj d \<longleftrightarrow> parents d = (edges d)\<inverse>"
  by (auto simp: symmetric_adj_def parents_def edges_def)

lemma trancl_converse_image: "(r\<inverse>)\<^sup>+ `` {k} = {a. (a, k) \<in> r\<^sup>+}"
  by (auto simp: trancl_converse)

lemma trancl_image_Collect: "r\<^sup>+ `` {k} = {b. (k, b) \<in> r\<^sup>+}"
  by auto

lemma cache_ok_iff:
  "symmetric_adj d \<Longrightarrow> cache_ok d \<longleftrightarrow> desc_ok d \<and> anc_ok d"
proof -
  assume "symmetric_adj d"
  then have p: "parents d = (edges d)\<inverse>" by (simp add: symmetric_adj_parents)
  have a: "((edges d)\<inverse>)\<^sup>+ `` {k} = {a. (a, k) \<in> (edges d)\<^sup>+}" for k
    by (rule trancl_converse_image)
  have b: "(edges d)\<^sup>+ `` {k} = {b. (k, b) \<in> (edges d)\<^sup>+}" for k
    by (rule trancl_image_Collect)
  show ?thesis
    unfolding cache_ok_def desc_ok_def anc_ok_def p a b ..
qed

lemma store_ok_finite_edges:
  assumes "store_ok d" shows "finite (edges d)"
proof -
  from assms have "edges d \<subseteq> dom (vertices d) \<times> dom (vertices d)"
    by (auto simp: store_ok_def)
  moreover from assms have "finite (dom (vertices d) \<times> dom (vertices d))"
    by (simp add: store_ok_def)
  ultimately show ?thesis by (rule finite_subset)
qed

subsection \<open>How the closure changes with one edge or one vertex\<close>

lemma trancl_insert_unchanged:
  assumes "(x, a) \<notin> r\<^sup>*"
  shows "{y. (x, y) \<in> (insert (a, b) r)\<^sup>+} = {y. (x, y) \<in> r\<^sup>+}"
  using assms by (auto simp: trancl_insert)

lemma trancl_insert_unchanged_conv:
  assumes "(b, x) \<notin> r\<^sup>*"
  shows "{y. (y, x) \<in> (insert (a, b) r)\<^sup>+} = {y. (y, x) \<in> r\<^sup>+}"
  using assms by (auto simp: trancl_insert)

lemma trancl_delete_unchanged:
  assumes "\<And>y z. (y, z) \<in> del \<Longrightarrow> (x, y) \<notin> r\<^sup>* \<or> (x, z) \<notin> r\<^sup>*"
  shows "{y. (x, y) \<in> (r - del)\<^sup>+} = {y. (x, y) \<in> r\<^sup>+}"
proof (intro equalityI subsetI; clarify)
  fix y assume "(x, y) \<in> (r - del)\<^sup>+"
  then show "(x, y) \<in> r\<^sup>+" by (rule trancl_mono) simp
next
  fix y assume "(x, y) \<in> r\<^sup>+"
  then show "(x, y) \<in> (r - del)\<^sup>+"
  proof (induction rule: trancl_induct)
    case (base y)
    then have "(x, y) \<in> r\<^sup>*" by auto
    with assms [of x y] base have "(x, y) \<notin> del" by auto
    with base show ?case by auto
  next
    case (step y z)
    then have "(x, y) \<in> r\<^sup>*" "(x, z) \<in> r\<^sup>*" by (auto intro: rtrancl_into_rtrancl)
    with assms [of y z] have "(y, z) \<notin> del" by auto
    with step show ?case by (auto intro: trancl_into_trancl)
  qed
qed

lemma trancl_delete_unchanged_conv:
  assumes "\<And>y z. (y, z) \<in> del \<Longrightarrow> (y, x) \<notin> r\<^sup>* \<or> (z, x) \<notin> r\<^sup>*"
  shows "{y. (y, x) \<in> (r - del)\<^sup>+} = {y. (y, x) \<in> r\<^sup>+}"
proof -
  have "{y. (x, y) \<in> (r\<inverse> - del\<inverse>)\<^sup>+} = {y. (x, y) \<in> (r\<inverse>)\<^sup>+}"
    by (rule trancl_delete_unchanged) (use assms in \<open>auto simp: rtrancl_converse\<close>)
  moreover have "r\<inverse> - del\<inverse> = (r - del)\<inverse>" by auto
  ultimately show ?thesis by (simp add: trancl_converse)
qed

subsection \<open>The relations after an update of the adjacency maps\<close>

lemma at_insertIn: "at (insertIn m x k) y = (if y = x then insert k (at m x) else at m y)"
  by (simp add: at_def insertIn_def)

lemma at_deleteIn: "at (deleteIn m x k) y = (if y = x then at m x - {k} else at m y)"
  by (auto simp: at_def deleteIn_def split: option.splits)

lemma at_deleteFrom: "at (deleteFrom m s k) y = (if y \<in> s then at m y - {k} else at m y)"
  by (auto simp: at_def deleteFrom_def split: option.splits)

lemma at_upd_None: "at (m(x := None)) y = (if y = x then {} else at m y)"
  by (simp add: at_def)

lemma edges_insertIn:
  "edges (d\<lparr>outboundEdge := insertIn (outboundEdge d) a b\<rparr>) = insert (a, b) (edges d)"
  by (auto simp: edges_def at_insertIn split: if_splits)

lemma parents_insertIn:
  "parents (d\<lparr>inboundEdge := insertIn (inboundEdge d) b a\<rparr>) = insert (b, a) (parents d)"
  by (auto simp: parents_def at_insertIn split: if_splits)

lemma edges_deleteIn:
  "edges (d\<lparr>outboundEdge := deleteIn (outboundEdge d) a b\<rparr>) = edges d - {(a, b)}"
  by (auto simp: edges_def at_deleteIn split: if_splits)

lemma parents_deleteIn:
  "parents (d\<lparr>inboundEdge := deleteIn (inboundEdge d) b a\<rparr>) = parents d - {(b, a)}"
  by (auto simp: parents_def at_deleteIn split: if_splits)

lemma edges_other_upd [simp]:
  "edges (d\<lparr>inboundEdge := m\<rparr>) = edges d"
  "edges (d\<lparr>vertices := vs\<rparr>) = edges d"
  "edges (d\<lparr>vertexValues := vv\<rparr>) = edges d"
  "parents (d\<lparr>outboundEdge := m\<rparr>) = parents d"
  "parents (d\<lparr>vertices := vs\<rparr>) = parents d"
  "parents (d\<lparr>vertexValues := vv\<rparr>) = parents d"
  by (simp_all add: edges_def parents_def)

lemma hashVertex_upd [simp]:
  "hashVertex (d\<lparr>inboundEdge := m\<rparr>) = hashVertex d"
  "hashVertex (d\<lparr>outboundEdge := m\<rparr>) = hashVertex d"
  "hashVertex (d\<lparr>vertices := vs\<rparr>) = hashVertex d"
  "hashVertex (d\<lparr>vertexValues := vv\<rparr>) = hashVertex d"
  "hashVertex (d\<lparr>descendantsCache := c\<rparr>) = hashVertex d"
  "hashVertex (d\<lparr>ancestorsCache := c\<rparr>) = hashVertex d"
  by (simp_all add: hashVertex_def fun_eq_iff)

lemma store_ok_cache_upd [simp]:
  "store_ok (d\<lparr>descendantsCache := c\<rparr>) = store_ok d"
  "store_ok (d\<lparr>ancestorsCache := c\<rparr>) = store_ok d"
  by (simp_all add: store_ok_def index_ok_def symmetric_adj_def idOf_def)

lemma getDescendants_ok:
  fixes d :: "('k, 'v) GenericDAG"
  assumes "range_ok rng" and "store_ok d" and "cache_ok d"
  obtains c where
    "getDescendants rng d k = Some ({b. (k, b) \<in> (edges d)\<^sup>+}, d\<lparr>descendantsCache := c\<rparr>)"
    and "cache_ok (d\<lparr>descendantsCache := c\<rparr>)"
proof -
  from assms have sym: "symmetric_adj d" and acyc: "acyclic (edges d)"
    by (simp_all add: store_ok_def)
  from assms(3) sym have dok: "desc_ok d" and aok: "anc_ok d"
    by (simp_all add: cache_ok_iff)
  from getDescendants_correct_aux [OF assms(1) store_ok_finite_edges [OF assms(2)] acyc refl dok, of k]
  obtain c where g: "getDescendants rng d k = Some ((edges d)\<^sup>+ `` {k}, d\<lparr>descendantsCache := c\<rparr>)"
    and c: "\<forall>x s. c x = Some s \<longrightarrow> s = (edges d)\<^sup>+ `` {x}" by blast
  have sym': "symmetric_adj (d\<lparr>descendantsCache := c\<rparr>)"
    using sym by (simp add: symmetric_adj_def)
  have "desc_ok (d\<lparr>descendantsCache := c\<rparr>)" using c by (simp add: desc_ok_def)
  moreover have "anc_ok (d\<lparr>descendantsCache := c\<rparr>)" using aok by (simp add: anc_ok_def)
  ultimately have "cache_ok (d\<lparr>descendantsCache := c\<rparr>)"
    using sym' by (simp add: cache_ok_iff)
  with g show ?thesis by (auto intro: that simp: trancl_image_Collect)
qed

lemma getAncestors_ok:
  fixes d :: "('k, 'v) GenericDAG"
  assumes "range_ok rng" and "store_ok d" and "cache_ok d"
  obtains c where
    "getAncestors rng d k = Some ({a. (a, k) \<in> (edges d)\<^sup>+}, d\<lparr>ancestorsCache := c\<rparr>)"
    and "cache_ok (d\<lparr>ancestorsCache := c\<rparr>)"
proof -
  from assms have sym: "symmetric_adj d" and acyc: "acyclic (edges d)"
    by (simp_all add: store_ok_def)
  from sym have p: "parents d = (edges d)\<inverse>" by (simp add: symmetric_adj_parents)
  from assms(3) sym have dok: "desc_ok d" and aok: "anc_ok d"
    by (simp_all add: cache_ok_iff)
  have fin: "finite (parents d)" and ac: "acyclic (parents d)"
    using store_ok_finite_edges [OF assms(2)] acyc by (simp_all add: p)
  from getAncestors_correct_aux [OF assms(1) fin ac refl aok, of k]
  obtain c where g: "getAncestors rng d k = Some ((parents d)\<^sup>+ `` {k}, d\<lparr>ancestorsCache := c\<rparr>)"
    and c: "\<forall>x s. c x = Some s \<longrightarrow> s = (parents d)\<^sup>+ `` {x}" by blast
  have sym': "symmetric_adj (d\<lparr>ancestorsCache := c\<rparr>)"
    using sym by (simp add: symmetric_adj_def)
  have "anc_ok (d\<lparr>ancestorsCache := c\<rparr>)" using c by (simp add: anc_ok_def)
  moreover have "desc_ok (d\<lparr>ancestorsCache := c\<rparr>)" using dok by (simp add: desc_ok_def)
  ultimately have "cache_ok (d\<lparr>ancestorsCache := c\<rparr>)"
    using sym' by (simp add: cache_ok_iff)
  with g show ?thesis by (auto intro: that simp: p trancl_converse_image)
qed

text \<open>Both cache builds that open a mutation, one after the other.\<close>

lemma build_both_ok:
  fixes d :: "('k, 'v) GenericDAG"
  assumes "range_ok rng" and "store_ok d" and "cache_ok d"
  obtains dc ac where
    "getDescendants rng d k = Some ({b. (k, b) \<in> (edges d)\<^sup>+}, d\<lparr>descendantsCache := dc\<rparr>)"
    and "getAncestors rng (d\<lparr>descendantsCache := dc\<rparr>) k'
           = Some ({a. (a, k') \<in> (edges d)\<^sup>+}, d\<lparr>descendantsCache := dc, ancestorsCache := ac\<rparr>)"
    and "cache_ok (d\<lparr>descendantsCache := dc, ancestorsCache := ac\<rparr>)"
proof -
  from getDescendants_ok [OF assms, of k] obtain dc where
    g: "getDescendants rng d k = Some ({b. (k, b) \<in> (edges d)\<^sup>+}, d\<lparr>descendantsCache := dc\<rparr>)"
    and c1: "cache_ok (d\<lparr>descendantsCache := dc\<rparr>)" by blast
  have s1: "store_ok (d\<lparr>descendantsCache := dc\<rparr>)" using assms(2) by simp
  from getAncestors_ok [OF assms(1) s1 c1, of k'] obtain ac where
    "getAncestors rng (d\<lparr>descendantsCache := dc\<rparr>) k'
       = Some ({a. (a, k') \<in> (edges d)\<^sup>+}, d\<lparr>descendantsCache := dc, ancestorsCache := ac\<rparr>)"
    and "cache_ok (d\<lparr>descendantsCache := dc, ancestorsCache := ac\<rparr>)" by auto
  with g show ?thesis by (rule that)
qed

lemma index_ok_live:
  assumes "index_ok d" and "vertexValues d i = Some v"
  shows "vertices d (hashVertex d v) = Some i"
  using assms by (simp add: index_ok_def)

lemma index_ok_distinct:
  assumes "index_ok d" and "vertexValues d i = Some v" and "vertexValues d j = Some w"
    and "i \<noteq> j"
  shows "hashVertex d v \<noteq> hashVertex d w"
proof
  assume e: "hashVertex d v = hashVertex d w"
  from assms have "vertices d (hashVertex d v) = Some i" "vertices d (hashVertex d w) = Some j"
    by (simp_all add: index_ok_def)
  with e assms(4) show False by simp
qed

lemma isEdge_iff:
  assumes "symmetric_adj d"
  shows "isEdge d a b \<longleftrightarrow> (a, b) \<in> edges d"
proof -
  from assms have s: "b \<in> at (outboundEdge d) a \<longleftrightarrow> a \<in> at (inboundEdge d) b"
    by (simp add: symmetric_adj_def)
  have "isEdge d a b \<longleftrightarrow> b \<in> at (outboundEdge d) a \<and> a \<in> at (inboundEdge d) b"
    by (auto simp: isEdge_def at_def split: option.splits)
  with s show ?thesis by (simp add: edges_def)
qed

lemma store_ok_parents: "store_ok d \<Longrightarrow> parents d = (edges d)\<inverse>"
  by (simp add: store_ok_def symmetric_adj_parents)

lemma symmetric_adjI: "parents d = (edges d)\<inverse> \<Longrightarrow> symmetric_adj d"
  by (simp add: symmetric_adj_parents)

lemma AddEdge_success:
  fixes d :: "('k, 'v) GenericDAG"
  assumes rng: "range_ok rng" and st: "store_ok d" and ca: "cache_ok d"
    and src: "vertexValues d srcID = Some src" and dst: "vertexValues d dstID = Some dst"
    and ne: "srcID \<noteq> []" "dstID \<noteq> []" and neq: "srcID \<noteq> dstID"
    and noedge: "(hashVertex d src, hashVertex d dst) \<notin> edges d"
    and noloop: "(hashVertex d dst, hashVertex d src) \<notin> (edges d)\<^sup>+"
  obtains d' where "AddEdge rng d srcID dstID = Some (None, d')"
    and "store_ok d'" and "cache_ok d'"
    and "edges d' = insert (hashVertex d src, hashVertex d dst) (edges d)"
    and "vertices d' = vertices d" and "vertexValues d' = vertexValues d"
    and "options d' = options d"
proof -
  let ?s = "hashVertex d src" and ?t = "hashVertex d dst"
  let ?r = "edges d"
  from st have sym: "symmetric_adj d" and idx: "index_ok d" and acyc: "acyclic ?r"
    and live: "\<forall>a b. (a, b) \<in> ?r \<longrightarrow> a \<in> dom (vertices d) \<and> b \<in> dom (vertices d)"
    and finv: "finite (dom (vertices d))"
    and eid: "\<forall>a b. (a, b) \<in> ?r \<longrightarrow> idOf d a \<noteq> [] \<and> idOf d b \<noteq> []"
    by (simp_all add: store_ok_def)
  have par: "parents d = ?r\<inverse>" using st by (rule store_ok_parents)
  have st_ne: "?s \<noteq> ?t" using index_ok_distinct [OF idx src dst neq] .
  have ie: "\<not> isEdge d ?s ?t" using noedge by (simp add: isEdge_iff [OF sym])
  have wl: "wouldCreateLoop rng d ?s ?t = Some False"
    using wouldCreateLoop_correct [OF rng store_ok_finite_edges [OF st], of ?s ?t] noloop by simp
  from build_both_ok [OF rng st ca, of ?t ?s] obtain dc ac where
    gd: "getDescendants rng d ?t = Some ({b. (?t, b) \<in> ?r\<^sup>+}, d\<lparr>descendantsCache := dc\<rparr>)"
    and ga: "getAncestors rng (d\<lparr>descendantsCache := dc\<rparr>) ?s
           = Some ({a. (a, ?s) \<in> ?r\<^sup>+}, d\<lparr>descendantsCache := dc, ancestorsCache := ac\<rparr>)"
    and c2: "cache_ok (d\<lparr>descendantsCache := dc, ancestorsCache := ac\<rparr>)" by blast
  define d' where "d' = d\<lparr>outboundEdge := insertIn (outboundEdge d) ?s ?t,
      inboundEdge := insertIn (inboundEdge d) ?t ?s,
      ancestorsCache := (deleteKeys ac {b. (?t, b) \<in> ?r\<^sup>+})(?t := None),
      descendantsCache := (deleteKeys dc {a. (a, ?s) \<in> ?r\<^sup>+})(?s := None)\<rparr>"
  have res: "AddEdge rng d srcID dstID = Some (None, d')"
    using src dst ne neq ie wl gd ga
    by (simp add: AddEdge_def saneID_def d'_def Let_def)
  have e': "edges d' = insert (?s, ?t) ?r"
    by (auto simp: d'_def edges_def at_insertIn split: if_splits)
  have p': "parents d' = insert (?t, ?s) (parents d)"
    by (auto simp: d'_def parents_def at_insertIn split: if_splits)
  have sym': "symmetric_adj d'"
    by (rule symmetric_adjI) (auto simp: e' p' par)
  have vs: "vertices d' = vertices d" "vertexValues d' = vertexValues d" "options d' = options d"
    by (simp_all add: d'_def)
  have idx': "index_ok d'" using idx by (simp add: index_ok_def vs hashVertex_def)
  have sl: "?s \<in> dom (vertices d)" "?t \<in> dom (vertices d)"
    using index_ok_live [OF idx src] index_ok_live [OF idx dst] by auto
  have "(?t, ?s) \<notin> ?r\<^sup>*" using noloop st_ne by (auto simp: rtrancl_eq_or_trancl)
  then have acyc': "acyclic (edges d')" using acyc by (simp add: e' acyclic_insert)
  have ids: "idOf d ?s = srcID" "idOf d ?t = dstID"
    using index_ok_live [OF idx src] index_ok_live [OF idx dst] by (simp_all add: idOf_def)
  have io: "idOf d' = idOf d" by (simp add: idOf_def fun_eq_iff vs)
  have eid': "\<forall>a b. (a, b) \<in> edges d' \<longrightarrow> idOf d' a \<noteq> [] \<and> idOf d' b \<noteq> []"
    using eid ids ne by (auto simp: e' io)
  have st': "store_ok d'"
    unfolding store_ok_def using finv idx' sym' acyc' live sl eid' by (auto simp: vs e')
  have dcok: "\<forall>k s. dc k = Some s \<longrightarrow> s = {b. (k, b) \<in> ?r\<^sup>+}"
    and acok: "\<forall>k s. ac k = Some s \<longrightarrow> s = {a. (a, k) \<in> ?r\<^sup>+}"
    using c2 by (simp_all add: cache_ok_def)
  have ca': "cache_ok d'"
    unfolding cache_ok_def e'
  proof (intro conjI allI impI)
    fix k s assume "descendantsCache d' k = Some s"
    then have k: "k \<noteq> ?s" "(k, ?s) \<notin> ?r\<^sup>+" "dc k = Some s"
      by (auto simp: d'_def deleteKeys_def split: if_splits)
    then have "(k, ?s) \<notin> ?r\<^sup>*" by (auto simp: rtrancl_eq_or_trancl)
    from trancl_insert_unchanged [OF this, of ?t] k dcok
    show "s = {b. (k, b) \<in> (insert (?s, ?t) ?r)\<^sup>+}" by simp
  next
    fix k s assume "ancestorsCache d' k = Some s"
    then have k: "k \<noteq> ?t" "(?t, k) \<notin> ?r\<^sup>+" "ac k = Some s"
      by (auto simp: d'_def deleteKeys_def split: if_splits)
    then have "(?t, k) \<notin> ?r\<^sup>*" by (auto simp: rtrancl_eq_or_trancl)
    from trancl_insert_unchanged_conv [OF this, of ?s] k acok
    show "s = {a. (a, k) \<in> (insert (?s, ?t) ?r)\<^sup>+}" by simp
  qed
  from res st' ca' e' vs show ?thesis by (rule that)
qed

lemma DeleteEdge_success:
  fixes d :: "('k, 'v) GenericDAG"
  assumes rng: "range_ok rng" and st: "store_ok d" and ca: "cache_ok d"
    and src: "vertexValues d srcID = Some src" and dst: "vertexValues d dstID = Some dst"
    and ne: "srcID \<noteq> []" "dstID \<noteq> []" and neq: "srcID \<noteq> dstID"
    and edge: "(hashVertex d src, hashVertex d dst) \<in> edges d"
  obtains d' where "DeleteEdge rng d srcID dstID = Some (None, d')"
    and "store_ok d'" and "cache_ok d'"
    and "edges d' = edges d - {(hashVertex d src, hashVertex d dst)}"
    and "vertices d' = vertices d" and "vertexValues d' = vertexValues d"
    and "options d' = options d"
proof -
  let ?s = "hashVertex d src" and ?t = "hashVertex d dst"
  let ?r = "edges d"
  from st have sym: "symmetric_adj d" and idx: "index_ok d" and acyc: "acyclic ?r"
    and live: "\<forall>a b. (a, b) \<in> ?r \<longrightarrow> a \<in> dom (vertices d) \<and> b \<in> dom (vertices d)"
    and finv: "finite (dom (vertices d))"
    and eid: "\<forall>a b. (a, b) \<in> ?r \<longrightarrow> idOf d a \<noteq> [] \<and> idOf d b \<noteq> []"
    by (simp_all add: store_ok_def)
  have par: "parents d = ?r\<inverse>" using st by (rule store_ok_parents)
  have ie: "isEdge d ?s ?t" using edge by (simp add: isEdge_iff [OF sym])
  from build_both_ok [OF rng st ca, of ?s ?t] obtain dc ac where
    gd: "getDescendants rng d ?s = Some ({b. (?s, b) \<in> ?r\<^sup>+}, d\<lparr>descendantsCache := dc\<rparr>)"
    and ga: "getAncestors rng (d\<lparr>descendantsCache := dc\<rparr>) ?t
           = Some ({a. (a, ?t) \<in> ?r\<^sup>+}, d\<lparr>descendantsCache := dc, ancestorsCache := ac\<rparr>)"
    and c2: "cache_ok (d\<lparr>descendantsCache := dc, ancestorsCache := ac\<rparr>)" by blast
  define d' where "d' = d\<lparr>outboundEdge := deleteIn (outboundEdge d) ?s ?t,
      inboundEdge := deleteIn (inboundEdge d) ?t ?s,
      ancestorsCache := (deleteKeys ac {b. (?s, b) \<in> ?r\<^sup>+})(?s := None),
      descendantsCache := (deleteKeys dc {a. (a, ?t) \<in> ?r\<^sup>+})(?t := None)\<rparr>"
  have res: "DeleteEdge rng d srcID dstID = Some (None, d')"
    using src dst ne neq ie gd ga
    by (simp add: DeleteEdge_def saneID_def d'_def Let_def)
  have e': "edges d' = ?r - {(?s, ?t)}"
    by (auto simp: d'_def edges_def at_deleteIn split: if_splits)
  have p': "parents d' = parents d - {(?t, ?s)}"
    by (auto simp: d'_def parents_def at_deleteIn split: if_splits)
  have sym': "symmetric_adj d'"
    by (rule symmetric_adjI) (auto simp: e' p' par)
  have vs: "vertices d' = vertices d" "vertexValues d' = vertexValues d" "options d' = options d"
    by (simp_all add: d'_def)
  have idx': "index_ok d'" using idx by (simp add: index_ok_def vs hashVertex_def)
  have acyc': "acyclic (edges d')"
    using acyc unfolding e' by (rule acyclic_subset) auto
  have io: "idOf d' = idOf d" by (simp add: idOf_def fun_eq_iff vs)
  have eid': "\<forall>a b. (a, b) \<in> edges d' \<longrightarrow> idOf d' a \<noteq> [] \<and> idOf d' b \<noteq> []"
    using eid by (auto simp: e' io)
  have st': "store_ok d'"
    unfolding store_ok_def using finv idx' sym' acyc' live eid' by (auto simp: vs e')
  have dcok: "\<forall>k s. dc k = Some s \<longrightarrow> s = {b. (k, b) \<in> ?r\<^sup>+}"
    and acok: "\<forall>k s. ac k = Some s \<longrightarrow> s = {a. (a, k) \<in> ?r\<^sup>+}"
    using c2 by (simp_all add: cache_ok_def)
  have ca': "cache_ok d'"
    unfolding cache_ok_def e'
  proof (intro conjI allI impI)
    fix k s assume "descendantsCache d' k = Some s"
    then have k: "k \<noteq> ?t" "(k, ?t) \<notin> ?r\<^sup>+" "dc k = Some s"
      by (auto simp: d'_def deleteKeys_def split: if_splits)
    then have "(k, ?t) \<notin> ?r\<^sup>*" by (auto simp: rtrancl_eq_or_trancl)
    then have "{y. (k, y) \<in> (?r - {(?s, ?t)})\<^sup>+} = {y. (k, y) \<in> ?r\<^sup>+}"
      by (intro trancl_delete_unchanged) auto
    with k dcok show "s = {b. (k, b) \<in> (?r - {(?s, ?t)})\<^sup>+}" by simp
  next
    fix k s assume "ancestorsCache d' k = Some s"
    then have k: "k \<noteq> ?s" "(?s, k) \<notin> ?r\<^sup>+" "ac k = Some s"
      by (auto simp: d'_def deleteKeys_def split: if_splits)
    then have "(?s, k) \<notin> ?r\<^sup>*" by (auto simp: rtrancl_eq_or_trancl)
    then have "{y. (y, k) \<in> (?r - {(?s, ?t)})\<^sup>+} = {y. (y, k) \<in> ?r\<^sup>+}"
      by (intro trancl_delete_unchanged_conv) auto
    with k acok show "s = {a. (a, k) \<in> (?r - {(?s, ?t)})\<^sup>+}" by simp
  qed
  from res st' ca' e' vs show ?thesis by (rule that)
qed

lemma DeleteVertex_success:
  fixes d :: "('k, 'v) GenericDAG"
  assumes rng: "range_ok rng" and st: "store_ok d" and ca: "cache_ok d"
    and val: "vertexValues d i = Some v" and ne: "i \<noteq> []"
  obtains d' where "DeleteVertex rng d i = Some (None, d')"
    and "store_ok d'" and "cache_ok d'"
    and "edges d' = edges d - {(a, b). a = hashVertex d v \<or> b = hashVertex d v}"
    and "vertices d' = (vertices d)(hashVertex d v := None)"
    and "vertexValues d' = (vertexValues d)(i := None)"
    and "options d' = options d"
proof -
  let ?v = "hashVertex d v"
  let ?r = "edges d"
  let ?del = "{(a, b). a = ?v \<or> b = ?v}"
  from st have sym: "symmetric_adj d" and idx: "index_ok d" and acyc: "acyclic ?r"
    and live: "\<forall>a b. (a, b) \<in> ?r \<longrightarrow> a \<in> dom (vertices d) \<and> b \<in> dom (vertices d)"
    and finv: "finite (dom (vertices d))"
    and eid: "\<forall>a b. (a, b) \<in> ?r \<longrightarrow> idOf d a \<noteq> [] \<and> idOf d b \<noteq> []"
    by (simp_all add: store_ok_def)
  have par: "parents d = ?r\<inverse>" using st by (rule store_ok_parents)
  have symE: "b \<in> at (outboundEdge d) a \<longleftrightarrow> a \<in> at (inboundEdge d) b" for a b
    using sym by (simp add: symmetric_adj_def)
  from build_both_ok [OF rng st ca, of ?v ?v] obtain dc ac where
    gd: "getDescendants rng d ?v = Some ({b. (?v, b) \<in> ?r\<^sup>+}, d\<lparr>descendantsCache := dc\<rparr>)"
    and ga: "getAncestors rng (d\<lparr>descendantsCache := dc\<rparr>) ?v
           = Some ({a. (a, ?v) \<in> ?r\<^sup>+}, d\<lparr>descendantsCache := dc, ancestorsCache := ac\<rparr>)"
    and c2: "cache_ok (d\<lparr>descendantsCache := dc, ancestorsCache := ac\<rparr>)" by blast
  define out3 where "out3 = deleteFrom (outboundEdge d) (at (inboundEdge d) ?v) ?v"
  define inb4 where "inb4 = deleteFrom (inboundEdge d) (at out3 ?v) ?v"
  define d' where "d' = d\<lparr>vertices := (vertices d)(?v := None),
      vertexValues := (vertexValues d)(i := None),
      inboundEdge := inb4(?v := None),
      outboundEdge := out3(?v := None),
      ancestorsCache := (deleteKeys ac {b. (?v, b) \<in> ?r\<^sup>+})(?v := None),
      descendantsCache := (deleteKeys dc {a. (a, ?v) \<in> ?r\<^sup>+})(?v := None)\<rparr>"
  have res: "DeleteVertex rng d i = Some (None, d')"
    using val ne gd ga
    by (simp add: DeleteVertex_def saneID_def d'_def Let_def out3_def inb4_def)
  have out': "at (out3(?v := None)) a = (if a = ?v then {} else at (outboundEdge d) a - {?v})" for a
    using symE [of ?v a] by (auto simp: at_upd_None out3_def at_deleteFrom)
  have o3v: "b \<noteq> ?v \<Longrightarrow> b \<in> at out3 ?v \<longleftrightarrow> b \<in> at (outboundEdge d) ?v" for b
    by (auto simp: out3_def at_deleteFrom)
  have inb': "at (inb4(?v := None)) b = (if b = ?v then {} else at (inboundEdge d) b - {?v})" for b
    using symE [of b ?v] o3v [of b] by (auto simp: at_upd_None inb4_def at_deleteFrom)
  have e': "edges d' = ?r - ?del"
    by (auto simp: d'_def edges_def out' split: if_splits)
  have p': "parents d' = parents d - ?del"
    by (auto simp: d'_def parents_def inb' split: if_splits)
  have sym': "symmetric_adj d'"
    by (rule symmetric_adjI) (auto simp: e' p' par)
  have vs: "vertices d' = (vertices d)(?v := None)" "vertexValues d' = (vertexValues d)(i := None)"
    "options d' = options d"
    by (simp_all add: d'_def)
  have vi: "vertices d ?v = Some i" using index_ok_live [OF idx val] .
  have idx': "index_ok d'"
    unfolding index_ok_def
  proof (intro conjI allI impI)
    fix k j assume "vertices d' k = Some j"
    then have k: "k \<noteq> ?v" "vertices d k = Some j" by (auto simp: vs split: if_splits)
    with idx obtain w where w: "vertexValues d j = Some w" "hashVertex d w = k"
      by (auto simp: index_ok_def)
    with k val have "j \<noteq> i" by auto
    with w show "\<exists>w. vertexValues d' j = Some w \<and> hashVertex d' w = k"
      by (simp add: vs hashVertex_def)
  next
    fix j w assume "vertexValues d' j = Some w"
    then have j: "j \<noteq> i" "vertexValues d j = Some w" by (auto simp: vs split: if_splits)
    with idx have "vertices d (hashVertex d w) = Some j" by (simp add: index_ok_def)
    moreover from this vi j have "hashVertex d w \<noteq> ?v" by auto
    ultimately show "vertices d' (hashVertex d' w) = Some j"
      by (simp add: vs hashVertex_def)
  qed
  have acyc': "acyclic (edges d')"
    using acyc unfolding e' by (rule acyclic_subset) auto
  have eid': "\<forall>a b. (a, b) \<in> edges d' \<longrightarrow> idOf d' a \<noteq> [] \<and> idOf d' b \<noteq> []"
    using eid by (auto simp: e' idOf_def vs)
  have st': "store_ok d'"
    unfolding store_ok_def using finv idx' sym' acyc' live eid' by (auto simp: vs e')
  have dcok: "\<forall>k s. dc k = Some s \<longrightarrow> s = {b. (k, b) \<in> ?r\<^sup>+}"
    and acok: "\<forall>k s. ac k = Some s \<longrightarrow> s = {a. (a, k) \<in> ?r\<^sup>+}"
    using c2 by (simp_all add: cache_ok_def)
  have ca': "cache_ok d'"
    unfolding cache_ok_def e'
  proof (intro conjI allI impI)
    fix k s assume "descendantsCache d' k = Some s"
    then have k: "k \<noteq> ?v" "(k, ?v) \<notin> ?r\<^sup>+" "dc k = Some s"
      by (auto simp: d'_def deleteKeys_def split: if_splits)
    then have "(k, ?v) \<notin> ?r\<^sup>*" by (auto simp: rtrancl_eq_or_trancl)
    then have "{y. (k, y) \<in> (?r - ?del)\<^sup>+} = {y. (k, y) \<in> ?r\<^sup>+}"
      by (intro trancl_delete_unchanged) auto
    with k dcok show "s = {b. (k, b) \<in> (?r - ?del)\<^sup>+}" by simp
  next
    fix k s assume "ancestorsCache d' k = Some s"
    then have k: "k \<noteq> ?v" "(?v, k) \<notin> ?r\<^sup>+" "ac k = Some s"
      by (auto simp: d'_def deleteKeys_def split: if_splits)
    then have "(?v, k) \<notin> ?r\<^sup>*" by (auto simp: rtrancl_eq_or_trancl)
    then have "{y. (y, k) \<in> (?r - ?del)\<^sup>+} = {y. (y, k) \<in> ?r\<^sup>+}"
      by (intro trancl_delete_unchanged_conv) auto
    with k acok show "s = {a. (a, k) \<in> (?r - ?del)\<^sup>+}" by simp
  qed
  from res st' ca' e' vs show ?thesis by (rule that)
qed

lemma addVertexByID_ok:
  fixes d :: "('k, 'v) GenericDAG"
  assumes st: "store_ok d" and ca: "cache_ok d"
  obtains e d' where "addVertexByID d i v = (e, d')" and "store_ok d'" and "cache_ok d'"
    and "edges d' = edges d" and "options d' = options d"
proof (cases "vertices d (hashVertex d v) \<noteq> None \<or> vertexValues d i \<noteq> None")
  case True
  then have "\<exists>e. addVertexByID d i v = (e, d)"
    by (auto simp: addVertexByID_def Let_def)
  with st ca show ?thesis by (auto intro: that)
next
  case False
  then have fresh: "vertices d (hashVertex d v) = None" "vertexValues d i = None" by auto
  define d' where "d' = d\<lparr>vertices := (vertices d)(hashVertex d v \<mapsto> i),
                          vertexValues := (vertexValues d)(i \<mapsto> v)\<rparr>"
  have res: "addVertexByID d i v = (None, d')"
    using fresh by (simp add: addVertexByID_def Let_def d'_def)
  from st have sym: "symmetric_adj d" and idx: "index_ok d" and acyc: "acyclic (edges d)"
    and live: "\<forall>a b. (a, b) \<in> edges d \<longrightarrow> a \<in> dom (vertices d) \<and> b \<in> dom (vertices d)"
    and finv: "finite (dom (vertices d))"
    and eid: "\<forall>a b. (a, b) \<in> edges d \<longrightarrow> idOf d a \<noteq> [] \<and> idOf d b \<noteq> []"
    by (simp_all add: store_ok_def)
  have e': "edges d' = edges d" and h': "hashVertex d' = hashVertex d"
    and o': "options d' = options d"
    by (simp_all add: d'_def)
  have sym': "symmetric_adj d'" using sym by (simp add: symmetric_adj_def d'_def)
  have idx': "index_ok d'"
    unfolding index_ok_def h'
  proof (intro conjI allI impI)
    fix k j assume a: "vertices d' k = Some j"
    show "\<exists>w. vertexValues d' j = Some w \<and> hashVertex d w = k"
    proof (cases "k = hashVertex d v")
      case True
      with a show ?thesis by (simp add: d'_def)
    next
      case False
      with a have "vertices d k = Some j" by (simp add: d'_def)
      with idx obtain w where w: "vertexValues d j = Some w" "hashVertex d w = k"
        by (auto simp: index_ok_def)
      with fresh have "j \<noteq> i" by auto
      with w show ?thesis by (simp add: d'_def)
    qed
  next
    fix j w assume a: "vertexValues d' j = Some w"
    show "vertices d' (hashVertex d w) = Some j"
    proof (cases "j = i")
      case True
      with a show ?thesis by (simp add: d'_def)
    next
      case False
      with a have "vertexValues d j = Some w" by (simp add: d'_def)
      with idx have v: "vertices d (hashVertex d w) = Some j" by (simp add: index_ok_def)
      with fresh have "hashVertex d w \<noteq> hashVertex d v" by auto
      with v show ?thesis by (simp add: d'_def)
    qed
  qed
  have eid': "\<forall>a b. (a, b) \<in> edges d \<longrightarrow> idOf d' a \<noteq> [] \<and> idOf d' b \<noteq> []"
  proof (intro allI impI)
    fix a b assume ab: "(a, b) \<in> edges d"
    with live fresh have "a \<noteq> hashVertex d v" "b \<noteq> hashVertex d v" by auto
    then have "idOf d' a = idOf d a" "idOf d' b = idOf d b" by (simp_all add: idOf_def d'_def)
    with eid ab show "idOf d' a \<noteq> [] \<and> idOf d' b \<noteq> []" by simp
  qed
  have st': "store_ok d'"
    unfolding store_ok_def e' using finv idx' sym' acyc live eid' by (auto simp: d'_def)
  have ca': "cache_ok d'" using ca by (simp add: cache_ok_def e') (simp add: d'_def)
  from res st' ca' e' o' show ?thesis by (rule that)
qed

lemma AddEdge_ok:
  fixes d :: "('k, 'v) GenericDAG"
  assumes rng: "range_ok rng" and st: "store_ok d" and ca: "cache_ok d"
  obtains e d' where "AddEdge rng d srcID dstID = Some (e, d')" and "store_ok d'" and "cache_ok d'"
    and "options d' = options d"
proof (cases "saneID d srcID = None \<and> saneID d dstID = None \<and> srcID \<noteq> dstID")
  case False
  then have "\<exists>e. AddEdge rng d srcID dstID = Some (Some e, d)"
    by (auto simp: AddEdge_def split: option.splits)
  with st ca show ?thesis by (auto intro: that)
next
  case True
  then obtain src dst where src: "vertexValues d srcID = Some src"
    and dst: "vertexValues d dstID = Some dst" and ne: "srcID \<noteq> []" "dstID \<noteq> []"
    and neq: "srcID \<noteq> dstID"
    by (auto simp: saneID_def split: if_splits option.splits)
  let ?s = "hashVertex d src" and ?t = "hashVertex d dst"
  from st have sym: "symmetric_adj d" by (simp add: store_ok_def)
  show ?thesis
  proof (cases "(?s, ?t) \<in> edges d")
    case True
    then have "AddEdge rng d srcID dstID = Some (Some (EdgeDuplicateError srcID dstID), d)"
      using src dst ne neq by (simp add: AddEdge_def saneID_def Let_def isEdge_iff [OF sym])
    with st ca show ?thesis by (auto intro: that)
  next
    case noedge: False
    show ?thesis
    proof (cases "(?t, ?s) \<in> (edges d)\<^sup>+")
      case True
      then have "wouldCreateLoop rng d ?s ?t = Some True"
        using wouldCreateLoop_correct [OF rng store_ok_finite_edges [OF st], of ?s ?t] by simp
      then have "AddEdge rng d srcID dstID = Some (Some (EdgeLoopError srcID dstID), d)"
        using src dst ne neq noedge
        by (simp add: AddEdge_def saneID_def Let_def isEdge_iff [OF sym])
      with st ca show ?thesis by (auto intro: that)
    next
      case False
      from AddEdge_success [OF rng st ca src dst ne neq noedge False]
      show ?thesis by (auto intro: that)
    qed
  qed
qed

lemma DeleteEdge_ok:
  fixes d :: "('k, 'v) GenericDAG"
  assumes rng: "range_ok rng" and st: "store_ok d" and ca: "cache_ok d"
  obtains e d' where "DeleteEdge rng d srcID dstID = Some (e, d')" and "store_ok d'"
    and "cache_ok d'" and "options d' = options d"
proof (cases "saneID d srcID = None \<and> saneID d dstID = None \<and> srcID \<noteq> dstID")
  case False
  then have "\<exists>e. DeleteEdge rng d srcID dstID = Some (Some e, d)"
    by (auto simp: DeleteEdge_def split: option.splits)
  with st ca show ?thesis by (auto intro: that)
next
  case True
  then obtain src dst where src: "vertexValues d srcID = Some src"
    and dst: "vertexValues d dstID = Some dst" and ne: "srcID \<noteq> []" "dstID \<noteq> []"
    and neq: "srcID \<noteq> dstID"
    by (auto simp: saneID_def split: if_splits option.splits)
  let ?s = "hashVertex d src" and ?t = "hashVertex d dst"
  from st have sym: "symmetric_adj d" by (simp add: store_ok_def)
  show ?thesis
  proof (cases "(?s, ?t) \<in> edges d")
    case False
    then have "DeleteEdge rng d srcID dstID = Some (Some (EdgeUnknownError srcID dstID), d)"
      using src dst ne neq by (simp add: DeleteEdge_def saneID_def Let_def isEdge_iff [OF sym])
    with st ca show ?thesis by (auto intro: that)
  next
    case True
    from DeleteEdge_success [OF rng st ca src dst ne neq True]
    show ?thesis by (auto intro: that)
  qed
qed

lemma DeleteVertex_ok:
  fixes d :: "('k, 'v) GenericDAG"
  assumes rng: "range_ok rng" and st: "store_ok d" and ca: "cache_ok d"
  obtains e d' where "DeleteVertex rng d i = Some (e, d')" and "store_ok d'"
    and "cache_ok d'" and "options d' = options d"
proof (cases "saneID d i")
  case (Some e)
  then have "DeleteVertex rng d i = Some (Some e, d)"
    by (simp add: DeleteVertex_def)
  with st ca show ?thesis by (auto intro: that)
next
  case None
  then obtain v where "vertexValues d i = Some v" and "i \<noteq> []"
    by (auto simp: saneID_def split: if_splits option.splits)
  from DeleteVertex_success [OF rng st ca this]
  show ?thesis by (auto intro: that)
qed

lemma GetDescendants_ok:
  fixes d :: "('k, 'v) GenericDAG"
  assumes rng: "range_ok rng" and st: "store_ok d" and ca: "cache_ok d"
  obtains res d' where "GetDescendants rng d i = Some (res, d')" and "store_ok d'"
    and "cache_ok d'" and "options d' = options d" and "edges d' = edges d"
proof (cases "saneID d i")
  case (Some e)
  then have "GetDescendants rng d i = Some (({}, Some e), d)"
    by (simp add: GetDescendants_def)
  with st ca show ?thesis by (auto intro: that)
next
  case None
  then obtain v where v: "vertexValues d i = Some v"
    by (auto simp: saneID_def split: if_splits option.splits)
  from getDescendants_ok [OF rng st ca, of "hashVertex d v"] obtain c where
    "getDescendants rng d (hashVertex d v)
       = Some ({b. (hashVertex d v, b) \<in> (edges d)\<^sup>+}, d\<lparr>descendantsCache := c\<rparr>)"
    and c: "cache_ok (d\<lparr>descendantsCache := c\<rparr>)" by blast
  then have "\<exists>res. GetDescendants rng d i = Some (res, d\<lparr>descendantsCache := c\<rparr>)"
    using None v by (simp add: GetDescendants_def)
  with st c show ?thesis by (auto intro: that)
qed

lemma GetAncestors_ok:
  fixes d :: "('k, 'v) GenericDAG"
  assumes rng: "range_ok rng" and st: "store_ok d" and ca: "cache_ok d"
  obtains res d' where "GetAncestors rng d i = Some (res, d')" and "store_ok d'"
    and "cache_ok d'" and "options d' = options d" and "edges d' = edges d"
proof (cases "saneID d i")
  case (Some e)
  then have "GetAncestors rng d i = Some (({}, Some e), d)"
    by (simp add: GetAncestors_def)
  with st ca show ?thesis by (auto intro: that)
next
  case None
  then obtain v where v: "vertexValues d i = Some v"
    by (auto simp: saneID_def split: if_splits option.splits)
  from getAncestors_ok [OF rng st ca, of "hashVertex d v"] obtain c where
    "getAncestors rng d (hashVertex d v)
       = Some ({a. (a, hashVertex d v) \<in> (edges d)\<^sup>+}, d\<lparr>ancestorsCache := c\<rparr>)"
    and c: "cache_ok (d\<lparr>ancestorsCache := c\<rparr>)" by blast
  then have "\<exists>res. GetAncestors rng d i = Some (res, d\<lparr>ancestorsCache := c\<rparr>)"
    using None v by (simp add: GetAncestors_def)
  with st c show ?thesis by (auto intro: that)
qed

lemma flushCaches_ok:
  assumes "store_ok d"
  shows "store_ok (flushCaches d)" and "cache_ok (flushCaches d)"
    and "edges (flushCaches d) = edges d"
  using assms by (simp_all add: flushCaches_def cache_ok_def)

lemma redundant_removal_trancl:
  assumes fin: "finite r" and acyc: "acyclic r" and sub: "r' \<subseteq> r"
    and red: "\<And>a b. (a, b) \<in> r \<Longrightarrow> (a, b) \<notin> r' \<Longrightarrow> \<exists>m. (a, m) \<in> r\<^sup>+ \<and> (m, b) \<in> r\<^sup>+"
  shows "r'\<^sup>+ = r\<^sup>+"
proof (intro equalityI subrelI)
  fix a b assume "(a, b) \<in> r'\<^sup>+"
  then show "(a, b) \<in> r\<^sup>+" by (rule trancl_mono) (rule sub)
next
  fix a b assume "(a, b) \<in> r\<^sup>+"
  then show "(a, b) \<in> r'\<^sup>+"
  proof (induction "card {x. (a, x) \<in> r\<^sup>+ \<and> (x, b) \<in> r\<^sup>+}" arbitrary: a b rule: less_induct)
    case less
    let ?B = "\<lambda>a b. {x. (a, x) \<in> r\<^sup>+ \<and> (x, b) \<in> r\<^sup>+}"
    have finB: "finite (?B a b)" for a b
    proof (rule finite_subset)
      show "?B a b \<subseteq> Range r" by (auto elim: tranclE)
      show "finite (Range r)" using fin by (rule finite_Range)
    qed
    show ?case
    proof (cases "(a, b) \<in> r'")
      case True
      then show ?thesis by auto
    next
      case False
      have "\<exists>m. (a, m) \<in> r\<^sup>+ \<and> (m, b) \<in> r\<^sup>+"
      proof (cases "(a, b) \<in> r")
        case True
        then show ?thesis using False by (rule red)
      next
        case nr: False
        from less.prems show ?thesis
        proof (cases rule: tranclE)
          case base
          with nr show ?thesis by simp
        next
          case (step c)
          then show ?thesis by auto
        qed
      qed
      then obtain m where m: "(a, m) \<in> r\<^sup>+" "(m, b) \<in> r\<^sup>+" by blast
      have nmm: "(m, m) \<notin> r\<^sup>+" using acyc by (simp add: acyclic_def)
      have "?B a m \<subset> ?B a b"
      proof
        show "?B a m \<subseteq> ?B a b" using m by (auto intro: trancl_trans)
        show "?B a m \<noteq> ?B a b" using m nmm by auto
      qed
      then have "card (?B a m) < card (?B a b)" by (rule psubset_card_mono [OF finB])
      from less.hyps [OF this m(1)] have 1: "(a, m) \<in> r'\<^sup>+" .
      have "?B m b \<subset> ?B a b"
      proof
        show "?B m b \<subseteq> ?B a b" using m by (auto intro: trancl_trans)
        show "?B m b \<noteq> ?B a b" using m nmm by auto
      qed
      then have "card (?B m b) < card (?B a b)" by (rule psubset_card_mono [OF finB])
      from less.hyps [OF this m(2)] have 2: "(m, b) \<in> r'\<^sup>+" .
      from 1 2 show ?thesis by (rule trancl_trans)
    qed
  qed
qed

lemma populate_roots_ok:
  fixes da :: "('k, 'v) GenericDAG"
  assumes rng: "range_ok rng"
  shows "store_ok da \<Longrightarrow> cache_ok da \<Longrightarrow>
     \<exists>c. rangeM (\<lambda>i d'. case vv i of
                           None \<Rightarrow> Some d'
                         | Some root \<Rightarrow> map_option snd (getDescendants rng d' (hashVertex d' root)))
                 ids da = Some (da\<lparr>descendantsCache := c\<rparr>)
        \<and> cache_ok (da\<lparr>descendantsCache := c\<rparr>)"
proof (induction ids arbitrary: da)
  case Nil
  have "da\<lparr>descendantsCache := descendantsCache da\<rparr> = da" by simp
  with Nil show ?case by (intro exI [of _ "descendantsCache da"]) simp
next
  case (Cons i ids)
  let ?f = "\<lambda>i d'. case vv i of
                           None \<Rightarrow> Some d'
                         | Some root \<Rightarrow> map_option snd (getDescendants rng d' (hashVertex d' root))"
  have "\<exists>c. ?f i da = Some (da\<lparr>descendantsCache := c\<rparr>) \<and> cache_ok (da\<lparr>descendantsCache := c\<rparr>)"
  proof (cases "vv i")
    case None
    have "da\<lparr>descendantsCache := descendantsCache da\<rparr> = da" by simp
    with None Cons.prems show ?thesis by (intro exI [of _ "descendantsCache da"]) simp
  next
    case (Some root)
    from getDescendants_ok [OF rng Cons.prems, of "hashVertex da root"] obtain c where
      "getDescendants rng da (hashVertex da root)
         = Some ({b. (hashVertex da root, b) \<in> (edges da)\<^sup>+}, da\<lparr>descendantsCache := c\<rparr>)"
      and "cache_ok (da\<lparr>descendantsCache := c\<rparr>)" by blast
    with Some show ?thesis by (intro exI [of _ c]) simp
  qed
  then obtain c1 where f: "?f i da = Some (da\<lparr>descendantsCache := c1\<rparr>)"
    and c1: "cache_ok (da\<lparr>descendantsCache := c1\<rparr>)" by blast
  have s1: "store_ok (da\<lparr>descendantsCache := c1\<rparr>)" using Cons.prems by simp
  from Cons.IH [OF s1 c1] obtain c2 where
    "rangeM ?f ids (da\<lparr>descendantsCache := c1\<rparr>) = Some (da\<lparr>descendantsCache := c2\<rparr>)"
    and "cache_ok (da\<lparr>descendantsCache := c2\<rparr>)" by auto
  with f show ?case by auto
qed

lemma reduceVertex_inv:
  fixes d1 :: "('k, 'v) GenericDAG"
  assumes ca: "cache_ok d1" and inv: "reduce_inv d1 (d', changed)"
    and rv: "reduceVertex d' vHash = (d'', c)"
  shows "reduce_inv d1 (d'', changed \<or> c)"
proof -
  let ?D = "\<Union>childOfV \<in> at (outboundEdge d') vHash. at (descendantsCache d') childOfV"
  let ?rem = "at (outboundEdge d') vHash \<inter> ?D"
  from rv have d'': "d'' = d'\<lparr>outboundEdge :=
              (outboundEdge d')(vHash := map_option (\<lambda>s. s - ?rem) (outboundEdge d' vHash)),
            inboundEdge := deleteFrom (inboundEdge d') ?rem vHash\<rparr>"
    and c: "c = (?rem \<noteq> {})"
    by (simp_all add: reduceVertex_def Let_def)
  from inv have same: "vertices d' = vertices d1" "vertexValues d' = vertexValues d1"
    "options d' = options d1" "descendantsCache d' = descendantsCache d1"
    "ancestorsCache d' = ancestorsCache d1"
    and sym: "symmetric_adj d'" and sub: "edges d' \<subseteq> edges d1"
    and red: "\<forall>a b. (a, b) \<in> edges d1 \<longrightarrow> (a, b) \<notin> edges d' \<longrightarrow>
               (\<exists>m. (a, m) \<in> edges d1 \<and> (m, b) \<in> (edges d1)\<^sup>+)"
    and unch: "\<not> changed \<longrightarrow> d' = d1"
    by (simp_all add: reduce_inv_def)
  have out'': "at (outboundEdge d'') a
      = (if a = vHash then at (outboundEdge d') a - ?rem else at (outboundEdge d') a)" for a
    by (auto simp: d'' at_def split: option.splits)
  have inb'': "at (inboundEdge d'') b
      = (if b \<in> ?rem then at (inboundEdge d') b - {vHash} else at (inboundEdge d') b)" for b
    by (simp add: d'' at_deleteFrom)
  have e'': "edges d'' = edges d' - {vHash} \<times> ?rem"
    by (auto simp: edges_def out'' split: if_splits)
  have p'': "parents d'' = parents d' - ?rem \<times> {vHash}"
    by (auto simp: parents_def inb'' split: if_splits)
  have par: "parents d' = (edges d')\<inverse>" using sym by (simp add: symmetric_adj_parents)
  have sym'': "symmetric_adj d''"
    by (rule symmetric_adjI) (auto simp: e'' p'' par)
  have remred: "\<exists>m. (vHash, m) \<in> edges d1 \<and> (m, x) \<in> (edges d1)\<^sup>+" if "x \<in> ?rem" for x
  proof -
    from that obtain ch where ch: "ch \<in> at (outboundEdge d') vHash"
      and x: "x \<in> at (descendantsCache d') ch" by auto
    from ch sub have "(vHash, ch) \<in> edges d1" by (auto simp: edges_def)
    moreover from x ca have "(ch, x) \<in> (edges d1)\<^sup>+"
      by (auto simp: at_def same cache_ok_def split: option.splits)
    ultimately show ?thesis by blast
  qed
  have red'': "\<forall>a b. (a, b) \<in> edges d1 \<longrightarrow> (a, b) \<notin> edges d'' \<longrightarrow>
               (\<exists>m. (a, m) \<in> edges d1 \<and> (m, b) \<in> (edges d1)\<^sup>+)"
  proof (intro allI impI)
    fix a b assume ab: "(a, b) \<in> edges d1" "(a, b) \<notin> edges d''"
    show "\<exists>m. (a, m) \<in> edges d1 \<and> (m, b) \<in> (edges d1)\<^sup>+"
    proof (cases "(a, b) \<in> edges d'")
      case False
      with red ab show ?thesis by blast
    next
      case True
      with ab have "a = vHash" "b \<in> ?rem" unfolding e'' by blast+
      with remred [of b] show ?thesis by blast
    qed
  qed
  have unch'': "\<not> (changed \<or> c) \<longrightarrow> d'' = d1"
  proof
    assume "\<not> (changed \<or> c)"
    then have "d' = d1" and r: "?rem = {}" using unch c by auto
    have "deleteFrom (inboundEdge d') {} vHash = inboundEdge d'"
      by (simp add: deleteFrom_def)
    moreover have "(outboundEdge d')(vHash := map_option (\<lambda>s. s - {}) (outboundEdge d' vHash))
        = outboundEdge d'"
      by (simp add: option.map_ident)
    ultimately have "d'' = d'" unfolding d'' r by simp
    with \<open>d' = d1\<close> show "d'' = d1" by simp
  qed
  show ?thesis
    unfolding reduce_inv_def using same sym'' sub red'' unch''
    by (auto simp: e'') (simp_all add: d'')
qed

lemma reduce_fold_inv:
  fixes d1 :: "('k, 'v) GenericDAG"
  assumes ca: "cache_ok d1"
  shows "reduce_inv d1 st \<Longrightarrow>
     reduce_inv d1 (fold (\<lambda>vHash (d', changed).
                     let (d'', c) = reduceVertex d' vHash in (d'', changed \<or> c)) ks st)"
proof (induction ks arbitrary: st)
  case Nil
  then show ?case by simp
next
  case (Cons k ks)
  obtain d' changed where st: "st = (d', changed)" by (cases st)
  obtain d'' c where rv: "reduceVertex d' k = (d'', c)" by (cases "reduceVertex d' k")
  from reduceVertex_inv [OF ca Cons.prems [unfolded st] rv]
  have "reduce_inv d1 (d'', changed \<or> c)" .
  from Cons.IH [OF this] show ?case by (simp add: st rv)
qed

lemma ReduceTransitively_ok:
  fixes d :: "('k, 'v) GenericDAG"
  assumes rng: "range_ok rng" and st: "store_ok d" and ca: "cache_ok d"
  obtains d' where "ReduceTransitively rng rngI d = Some d'" and "store_ok d'" and "cache_ok d'"
    and "options d' = options d" and "vertices d' = vertices d"
    and "vertexValues d' = vertexValues d"
    and "edges d' \<subseteq> edges d" and "(edges d')\<^sup>+ = (edges d)\<^sup>+"
proof -
  from populate_roots_ok [OF rng st ca, of "vertexValues d" "rngI (getRoots d)"]
  obtain c where pop: "rangeM (\<lambda>i d'. case vertexValues d i of
                           None \<Rightarrow> Some d'
                         | Some root \<Rightarrow> map_option snd (getDescendants rng d' (hashVertex d' root)))
                 (rngI (getRoots d)) d = Some (d\<lparr>descendantsCache := c\<rparr>)"
    and c1: "cache_ok (d\<lparr>descendantsCache := c\<rparr>)" by blast
  let ?d1 = "d\<lparr>descendantsCache := c\<rparr>"
  have s1: "store_ok ?d1" using st by simp
  then have sym1: "symmetric_adj ?d1" by (simp add: store_ok_def)
  let ?st = "fold (\<lambda>vHash (d', changed).
                     let (d'', c) = reduceVertex d' vHash in (d'', changed \<or> c))
                  (rng (dom (vertices ?d1))) (?d1, False)"
  have "reduce_inv ?d1 (?d1, False)" using sym1 by (simp add: reduce_inv_def)
  from reduce_fold_inv [OF c1 this] have inv: "reduce_inv ?d1 ?st" .
  obtain d2 changed where fd: "?st = (d2, changed)" by (cases ?st)
  let ?res = "if changed then flushCaches d2 else d2"
  have res: "ReduceTransitively rng rngI d = Some ?res"
    unfolding ReduceTransitively_def using pop fd by simp
  from inv [unfolded fd] have same: "vertices d2 = vertices d" "vertexValues d2 = vertexValues d"
    "options d2 = options d"
    and sym2: "symmetric_adj d2" and sub: "edges d2 \<subseteq> edges d"
    and red: "\<forall>a b. (a, b) \<in> edges d \<longrightarrow> (a, b) \<notin> edges d2 \<longrightarrow>
               (\<exists>m. (a, m) \<in> edges d \<and> (m, b) \<in> (edges d)\<^sup>+)"
    and unch: "\<not> changed \<longrightarrow> d2 = ?d1"
    by (simp_all add: reduce_inv_def)
  from st have idx: "index_ok d" and acyc: "acyclic (edges d)"
    and live: "\<forall>a b. (a, b) \<in> edges d \<longrightarrow> a \<in> dom (vertices d) \<and> b \<in> dom (vertices d)"
    and finv: "finite (dom (vertices d))"
    and eid: "\<forall>a b. (a, b) \<in> edges d \<longrightarrow> idOf d a \<noteq> [] \<and> idOf d b \<noteq> []"
    by (simp_all add: store_ok_def)
  have idx2: "index_ok d2" using idx by (simp add: index_ok_def same hashVertex_def)
  have acyc2: "acyclic (edges d2)" using acyc sub by (rule acyclic_subset)
  have io: "idOf d2 = idOf d" by (simp add: idOf_def fun_eq_iff same)
  have eid2: "\<forall>a b. (a, b) \<in> edges d2 \<longrightarrow> idOf d2 a \<noteq> [] \<and> idOf d2 b \<noteq> []"
    using eid sub by (auto simp: io)
  have st2: "store_ok d2"
    unfolding store_ok_def using finv idx2 sym2 acyc2 live sub eid2 by (auto simp: same)
  have tr: "(edges d2)\<^sup>+ = (edges d)\<^sup>+"
  proof (rule redundant_removal_trancl [OF store_ok_finite_edges [OF st] acyc sub])
    fix a b assume "(a, b) \<in> edges d" "(a, b) \<notin> edges d2"
    with red obtain m where "(a, m) \<in> edges d" "(m, b) \<in> (edges d)\<^sup>+" by blast
    then show "\<exists>m. (a, m) \<in> (edges d)\<^sup>+ \<and> (m, b) \<in> (edges d)\<^sup>+" by auto
  qed
  have "store_ok ?res" using st2 flushCaches_ok(1) [OF st2] by simp
  moreover have "cache_ok ?res"
    using flushCaches_ok(2) [OF st2] unch c1 by auto
  moreover have "options ?res = options d" "vertices ?res = vertices d"
    "vertexValues ?res = vertexValues d"
    using same by (simp_all add: flushCaches_def)
  moreover have "edges ?res = edges d2" using flushCaches_ok(3) [OF st2] by simp
  ultimately show ?thesis using res sub tr by (intro that [of ?res]) simp_all
qed

lemma NewGenericDAG_ok: "store_ok (NewGenericDAG h)" "cache_ok (NewGenericDAG h)"
  by (simp_all add: store_ok_def cache_ok_def NewGenericDAG_def index_ok_def symmetric_adj_def
      edges_def at_def acyclic_def)

lemma perform_ok:
  fixes d :: "('k, 'v) GenericDAG"
  assumes rng: "range_ok rng" and st: "store_ok d" and ca: "cache_ok d"
  obtains e d' where "perform rng rngI d c = Some (e, d')" and "store_ok d'" and "cache_ok d'"
    and "options d' = options d"
proof (cases c)
  case (CallAddVertex newID v)
  show ?thesis
  proof (rule addVertexByID_ok [OF st ca, of newID v])
    fix e d' assume "addVertexByID d newID v = (e, d')" "store_ok d'" "cache_ok d'"
      "options d' = options d"
    with CallAddVertex show ?thesis
      by (intro that [of e d']) (simp_all add: AddVertex_def addVertex_def)
  qed
next
  case (CallAddVertexByID i v)
  show ?thesis
  proof (rule addVertexByID_ok [OF st ca, of i v])
    fix e d' assume "addVertexByID d i v = (e, d')" "store_ok d'" "cache_ok d'"
      "options d' = options d"
    with CallAddVertexByID show ?thesis
      by (intro that [of e d']) (simp_all add: AddVertexByID_def)
  qed
next
  case (CallAddEdge s t)
  show ?thesis
  proof (rule AddEdge_ok [OF rng st ca, of s t])
    fix e d' assume "AddEdge rng d s t = Some (e, d')" "store_ok d'" "cache_ok d'"
      "options d' = options d"
    with CallAddEdge show ?thesis
      by (intro that [of e d']) simp_all
  qed
next
  case (CallDeleteEdge s t)
  show ?thesis
  proof (rule DeleteEdge_ok [OF rng st ca, of s t])
    fix e d' assume "DeleteEdge rng d s t = Some (e, d')" "store_ok d'" "cache_ok d'"
      "options d' = options d"
    with CallDeleteEdge show ?thesis
      by (intro that [of e d']) simp_all
  qed
next
  case (CallDeleteVertex i)
  show ?thesis
  proof (rule DeleteVertex_ok [OF rng st ca, of i])
    fix e d' assume "DeleteVertex rng d i = Some (e, d')" "store_ok d'" "cache_ok d'"
      "options d' = options d"
    with CallDeleteVertex show ?thesis
      by (intro that [of e d']) simp_all
  qed
next
  case CallReduceTransitively
  show ?thesis
  proof (rule ReduceTransitively_ok [OF rng st ca, of rngI])
    fix d' assume "ReduceTransitively rng rngI d = Some d'" "store_ok d'" "cache_ok d'"
      "options d' = options d"
    with CallReduceTransitively show ?thesis
      by (intro that [of None d']) simp_all
  qed
next
  case CallFlushCaches
  with flushCaches_ok [OF st] show ?thesis
    by (intro that [of None "flushCaches d"]) (simp_all add: FlushCaches_def flushCaches_def)
next
  case (CallGetDescendants i)
  show ?thesis
  proof (rule GetDescendants_ok [OF rng st ca, of i])
    fix res d' assume "GetDescendants rng d i = Some (res, d')" "store_ok d'" "cache_ok d'"
      "options d' = options d"
    with CallGetDescendants show ?thesis
      by (intro that [of "snd res" d']) (simp_all add: case_prod_beta)
  qed
next
  case (CallGetAncestors i)
  show ?thesis
  proof (rule GetAncestors_ok [OF rng st ca, of i])
    fix res d' assume "GetAncestors rng d i = Some (res, d')" "store_ok d'" "cache_ok d'"
      "options d' = options d"
    with CallGetAncestors show ?thesis
      by (intro that [of "snd res" d']) (simp_all add: case_prod_beta)
  qed
qed

lemma performAll_ok:
  fixes d :: "('k, 'v) GenericDAG"
  assumes rng: "range_ok rng"
  shows "store_ok d \<Longrightarrow> cache_ok d \<Longrightarrow>
         \<exists>d'. performAll rng rngI d cs = Some d' \<and> store_ok d' \<and> cache_ok d'
              \<and> options d' = options d"
proof (induction cs arbitrary: d)
  case Nil
  then show ?case by simp
next
  case (Cons c cs)
  from perform_ok [OF rng Cons.prems, of rngI c] obtain e d1 where
    p: "perform rng rngI d c = Some (e, d1)" and ok: "store_ok d1" "cache_ok d1"
    and o: "options d1 = options d" by blast
  from Cons.IH [OF ok] p o show ?case by auto
qed

lemma range_ok_sorted_list_of_set: "range_ok (sorted_list_of_set :: 'a::linorder set \<Rightarrow> 'a list)"
  by (simp add: range_ok_def)

subsection \<open>Running the model on explicit stores\<close>

lemma deleteKeys_empty: "deleteKeys Map.empty s = Map.empty"
  by (simp add: deleteKeys_def)

lemma deleteKeys_upd:
  "deleteKeys (m(k \<mapsto> v)) s = (if k \<in> s then deleteKeys m s else (deleteKeys m s)(k \<mapsto> v))"
  by (auto simp: deleteKeys_def fun_eq_iff)

lemma upd_None_upd:
  "(m(k' \<mapsto> v))(k := None) = (if k = k' then m(k := None) else (m(k := None))(k' \<mapsto> v))"
  by (auto simp: fun_eq_iff)

lemma deleteFrom_empty: "deleteFrom Map.empty s k = Map.empty"
  by (simp add: deleteFrom_def fun_eq_iff)

lemma deleteFrom_upd:
  "deleteFrom (m(x \<mapsto> t)) s k =
     (deleteFrom (m(x := None)) s k)(x \<mapsto> (if x \<in> s then t - {k} else t))"
  by (auto simp: deleteFrom_def fun_eq_iff)

lemma keysWhere_empty: "keysWhere p Map.empty = {}"
  by (simp add: keysWhere_def)

lemma keysWhere_upd:
  "keysWhere p (m(k \<mapsto> v)) = (if p k then insert k (keysWhere p m) else keysWhere p m)"
  by (auto simp: keysWhere_def)

lemmas eval_defs = keysWhere_empty keysWhere_upd getRoots_def getLeaves_def performAll.simps perform.simps AddVertexByID_def addVertexByID_def hashVertex_def
  NewGenericDAG_def AddEdge_def saneID_def isEdge_def wouldCreateLoop_def enqueueNew_def
  bfsLoop.simps getDescendants.simps getAncestors.simps insertIn_def at_def Let_def
  deleteIn_def DeleteEdge_def DeleteVertex_def GetDescendants_def GetAncestors_def
  deleteKeys_empty deleteKeys_upd upd_None_upd deleteFrom_empty deleteFrom_upd

lemma chain_built:
  "performAll sorted_list_of_set sorted_list_of_set (NewGenericDAG (\<lambda>v. v)) chainCalls = Some chain"
  by (simp add: chainCalls_def chain_def eval_defs)

lemma triangle_built:
  "performAll sorted_list_of_set sorted_list_of_set (NewGenericDAG (\<lambda>v. v)) triangleCalls
     = Some triangle"
  by (simp add: triangleCalls_def triangle_def eval_defs)

lemma cached_built:
  "performAll sorted_list_of_set sorted_list_of_set (NewGenericDAG (\<lambda>v. v)) cachedCalls
     = Some cached"
  by (simp add: cachedCalls_def cached_def eval_defs)

lemma built_ok:
  fixes h :: "'v \<Rightarrow> 'k" and rng :: "'k set \<Rightarrow> 'k list"
  assumes "range_ok rng" and "performAll rng rngI (NewGenericDAG h) cs = Some d"
  shows "store_ok d" and "cache_ok d"
proof -
  from performAll_ok [OF assms(1) NewGenericDAG_ok] obtain d' where
    "performAll rng rngI (NewGenericDAG h) cs = Some d'" "store_ok d'" "cache_ok d'" by blast
  with assms(2) show "store_ok d" and "cache_ok d" by simp_all
qed

lemma triangle_reduced:
  "ReduceTransitively sorted_list_of_set sorted_list_of_set triangle = Some triangleReduced"
  by (simp add: ReduceTransitively_def triangle_def triangleReduced_def reduceVertex_def
      flushCaches_def idOf_def eval_defs)

lemmas walk_defs = GenericDFSWalk_def genericDFSLoop.simps DFSWalk_def dfsLoop.simps
  vertexIDsGeneric_def vertexIDs_def reversedVertexIDs_def getChildren_def GetParents_def
  GenericOrderedWalk_def genericOrderedLoop.simps OrderedWalk_def orderedLoop.simps
  getRoots_def keysWhere_empty keysWhere_upd idOf_def saneID_def hashVertex_def at_def Let_def

lemmas marshal_defs = MarshalJSON_def marshalLoop.simps NewGenericMarshalVisitor_def Visit_def
  AddEdges_def

lemma twoRoots_built:
  "performAll sorted_list_of_set sorted_list_of_set (NewGenericDAG (\<lambda>v. v)) twoRootsCalls
     = Some twoRoots"
  by (simp add: twoRootsCalls_def twoRoots_def eval_defs)

lemma sharedChild_built:
  "performAll sorted_list_of_set sorted_list_of_set (NewGenericDAG (\<lambda>v. v)) sharedChildCalls
     = Some sharedChild"
  by (simp add: sharedChildCalls_def sharedChild_def eval_defs)

lemma range_ok_rev_sorted_list_of_set:
  "range_ok (rev \<circ> (sorted_list_of_set :: 'a::linorder set \<Rightarrow> 'a list))"
  by (simp add: range_ok_def)

lemma requeue_built:
  "performAll sorted_list_of_set sorted_list_of_set (NewGenericDAG (\<lambda>v. v)) requeueCalls
     = Some requeue"
  by (simp add: requeueCalls_def requeue_def eval_defs)

section \<open>The topological walk\<close>

lemma before_append_old:
  assumes "before t a b"
  shows "before (t @ [i]) a b"
proof -
  from assms have b: "b \<in> set t" and a: "a \<in> set (takeWhile (\<lambda>x. x \<noteq> b) t)"
    by (simp_all add: before_def)
  from b have "takeWhile (\<lambda>x. x \<noteq> b) (t @ [i]) = takeWhile (\<lambda>x. x \<noteq> b) t"
    by (intro takeWhile_append1 [of b]) auto
  with a b show ?thesis by (simp add: before_def)
qed

lemma before_append_new:
  assumes "a \<in> set t" and "i \<notin> set t"
  shows "before (t @ [i]) a i"
proof -
  from assms(2) have "takeWhile (\<lambda>x. x \<noteq> i) (t @ [i]) = t @ takeWhile (\<lambda>x. x \<noteq> i) [i]"
    by (intro takeWhile_append2) auto
  with assms(1) show ?thesis by (simp add: before_def)
qed

lemma exists_ready:
  assumes fin: "finite L" and sub: "E \<subseteq> L \<times> L" and acyc: "acyclic E"
    and i: "i \<in> L - V"
  obtains w where "w \<in> L - V" and "ready E V w"
proof -
  have "finite E" using fin sub by (meson finite_SigmaI finite_subset)
  then have "wf E" using acyc by (rule finite_acyclic_wf)
  from wfE_min [OF this i] obtain w where w: "w \<in> L - V"
    and min: "\<And>y. (y, w) \<in> E \<Longrightarrow> y \<notin> L - V" by blast
  have "ready E V w"
    unfolding ready_def
  proof (intro conjI allI impI)
    show "w \<notin> V" using w by simp
    fix p assume "(p, w) \<in> E"
    with min [of p] sub show "p \<in> V" by auto
  qed
  with w show ?thesis by (rule that)
qed

lemma ordered_loop_total_correct:
  fixes f :: "'a list \<Rightarrow> 'a set \<Rightarrow> 'a list \<Rightarrow> 'a list option"
    and E :: "('a \<times> 'a) set" and L :: "'a set" and push :: "'a \<Rightarrow> 'a set \<Rightarrow> 'a list"
  assumes eq: "\<And>q V t. f q V t =
        (case q of
           [] \<Rightarrow> Some t
         | i # rest \<Rightarrow>
             if i \<in> V then f rest V t
             else if \<exists>p \<in> E\<inverse> `` {i}. p \<notin> V then f (rest @ [i]) V t
             else f (rest @ push i (insert i V)) (insert i V) (t @ [i]))"
    and push: "\<And>i V'. E `` {i} - V' \<subseteq> set (push i V') \<and> set (push i V') \<subseteq> E `` {i}"
    and fin: "finite L" and sub: "E \<subseteq> L \<times> L" and acyc: "acyclic E"
  shows "walk_inv E L q V t \<Longrightarrow>
         \<exists>tr. f q V t = Some tr \<and> distinct tr \<and> set tr = L \<and> (\<forall>(a, b) \<in> E. before tr a b)"
proof (induction "(card (L - V), length q + length (takeWhile (\<lambda>x. \<not> ready E V x) q))"
       arbitrary: q V t rule: wf_induct_rule [OF wf_lex_prod [OF wf_less_than wf_less_than]])
  case 1
  note IH = "1.hyps" and inv = "1.prems"
  from inv have tV: "set t = V" and dt: "distinct t" and VL: "V \<subseteq> L" and qL: "set q \<subseteq> L"
    and ord: "\<forall>b \<in> V. \<forall>a. (a, b) \<in> E \<longrightarrow> before t a b"
    and front: "\<forall>i \<in> L - V. ready E V i \<longrightarrow> i \<in> set q"
    by (simp_all add: walk_inv_def)
  show ?case
  proof (cases q)
    case Nil
    have "V = L"
    proof (rule ccontr)
      assume "V \<noteq> L"
      with VL obtain i where "i \<in> L - V" by auto
      from exists_ready [OF fin sub acyc this] obtain w where "w \<in> L - V" "ready E V w" .
      with front Nil show False by auto
    qed
    moreover from this ord sub have "\<forall>(a, b) \<in> E. before t a b" by auto
    moreover have "f q V t = Some t" using Nil by (subst eq) simp
    ultimately show ?thesis using tV dt by auto
  next
    case (Cons i rest)
    let ?P = "\<lambda>V x. \<not> ready E V x"
    show ?thesis
    proof (cases "i \<in> V")
      case True
      then have nr: "\<not> ready E V i" by (simp add: ready_def)
      have inv': "walk_inv E L rest V t"
        using inv Cons True by (auto simp: walk_inv_def)
      have "((card (L - V), length rest + length (takeWhile (?P V) rest)),
             (card (L - V), length q + length (takeWhile (?P V) q)))
            \<in> less_than <*lex*> less_than"
        using Cons nr by simp
      from IH [OF this inv'] have "\<exists>tr. f rest V t = Some tr \<and> distinct tr \<and> set tr = L
          \<and> (\<forall>(a, b) \<in> E. before tr a b)" .
      moreover have "f q V t = f rest V t" using Cons True by (subst eq) simp
      ultimately show ?thesis by simp
    next
      case iV: False
      from qL Cons have iL: "i \<in> L" by simp
      show ?thesis
      proof (cases "\<exists>p \<in> E\<inverse> `` {i}. p \<notin> V")
        case True
        then have nr: "\<not> ready E V i" by (auto simp: ready_def)
        from exists_ready [OF fin sub acyc, of i V] iL iV obtain w where
          w: "w \<in> L - V" "ready E V w" by auto
        with front have "w \<in> set q" by auto
        with nr w Cons have wr: "w \<in> set rest" by auto
        have tw: "takeWhile (?P V) (rest @ [i]) = takeWhile (?P V) rest"
          using wr w(2) by (intro takeWhile_append1 [of w]) auto
        have inv': "walk_inv E L (rest @ [i]) V t"
          using inv Cons by (auto simp: walk_inv_def)
        have "((card (L - V), length (rest @ [i]) + length (takeWhile (?P V) (rest @ [i]))),
               (card (L - V), length q + length (takeWhile (?P V) q)))
              \<in> less_than <*lex*> less_than"
          unfolding tw using Cons nr by simp
        from IH [OF this inv'] have "\<exists>tr. f (rest @ [i]) V t = Some tr \<and> distinct tr
            \<and> set tr = L \<and> (\<forall>(a, b) \<in> E. before tr a b)" .
        moreover have "f q V t = f (rest @ [i]) V t"
          using Cons iV True by (subst eq) simp
        ultimately show ?thesis by simp
      next
        case False
        then have par: "\<forall>p. (p, i) \<in> E \<longrightarrow> p \<in> V" by auto
        let ?V = "insert i V" and ?t = "t @ [i]"
        let ?q = "rest @ push i (insert i V)"
        have pushL: "set (push i ?V) \<subseteq> L" using push [of i ?V] sub by auto
        have inv': "walk_inv E L ?q ?V ?t"
          unfolding walk_inv_def
        proof (intro conjI ballI allI impI)
          show "set ?t = ?V" using tV by auto
          show "distinct ?t" using dt tV iV by auto
          show "?V \<subseteq> L" using VL iL by auto
          show "set ?q \<subseteq> L" using qL Cons pushL by auto
        next
          fix b a assume b: "b \<in> ?V" and ab: "(a, b) \<in> E"
          show "before ?t a b"
          proof (cases "b = i")
            case True
            with ab par have "a \<in> set t" using tV by auto
            moreover have "i \<notin> set t" using tV iV by simp
            ultimately show ?thesis unfolding True by (rule before_append_new)
          next
            case False
            with b ord ab have "before t a b" by auto
            then show ?thesis by (rule before_append_old)
          qed
        next
          fix x assume x: "x \<in> L - ?V" and r: "ready E ?V x"
          show "x \<in> set ?q"
          proof (cases "ready E V x")
            case True
            with front x have "x \<in> set q" by auto
            with Cons x show ?thesis by auto
          next
            case False
            with r x have "(i, x) \<in> E" by (auto simp: ready_def)
            with x push [of i ?V] show ?thesis by auto
          qed
        qed
        have "card (L - ?V) < card (L - V)"
          using fin iL iV by (intro psubset_card_mono) auto
        then have "((card (L - ?V), length ?q + length (takeWhile (?P ?V) ?q)),
               (card (L - V), length q + length (takeWhile (?P V) q)))
              \<in> less_than <*lex*> less_than"
          by simp
        from IH [OF this inv'] have "\<exists>tr. f ?q ?V ?t = Some tr \<and> distinct tr
            \<and> set tr = L \<and> (\<forall>(a, b) \<in> E. before tr a b)" .
        moreover have "f q V t = f ?q ?V ?t"
          using Cons iV False by (subst eq) simp
        ultimately show ?thesis by simp
      qed
    qed
  qed
qed

subsection \<open>The queries of the walks, read on the edges between ids\<close>

lemma idOf_live: "vertices d k = Some i \<Longrightarrow> idOf d k = i"
  by (simp add: idOf_def)

lemma store_ok_key_of_id:
  assumes st: "store_ok d" and a: "a \<in> dom (vertices d)" and v: "vertexValues d (idOf d a) = Some v"
  shows "hashVertex d v = a"
proof -
  from a obtain i where i: "vertices d a = Some i" by auto
  from st have idx: "index_ok d" by (simp add: store_ok_def)
  from idx i obtain w where w: "vertexValues d i = Some w" "hashVertex d w = a"
    unfolding index_ok_def by blast
  from v i have "vertexValues d i = Some v" by (simp add: idOf_def)
  with w show ?thesis by simp
qed

lemma store_ok_id_has_value:
  assumes st: "store_ok d" and a: "a \<in> dom (vertices d)"
  shows "\<exists>v. vertexValues d (idOf d a) = Some v"
proof -
  from a obtain i where i: "vertices d a = Some i" by auto
  from st have idx: "index_ok d" by (simp add: store_ok_def)
  from idx i obtain w where "vertexValues d i = Some w" unfolding index_ok_def by blast
  with i show ?thesis by (simp add: idOf_def)
qed

lemma idEdges_sub:
  assumes st: "store_ok d"
  shows "idEdges d \<subseteq> dom (vertexValues d) \<times> dom (vertexValues d)"
proof
  fix x assume "x \<in> idEdges d"
  then obtain a b where x: "x = (idOf d a, idOf d b)" and ab: "(a, b) \<in> edges d"
    by (auto simp: idEdges_def)
  from st ab have "a \<in> dom (vertices d)" "b \<in> dom (vertices d)" by (auto simp: store_ok_def)
  then show "x \<in> dom (vertexValues d) \<times> dom (vertexValues d)"
    using store_ok_id_has_value [OF st] x by auto
qed

lemma idEdges_nonempty:
  assumes st: "store_ok d" and e: "(i, j) \<in> idEdges d"
  shows "i \<noteq> [] \<and> j \<noteq> []"
proof -
  from e obtain a b where "i = idOf d a" "j = idOf d b" "(a, b) \<in> edges d"
    by (auto simp: idEdges_def)
  with st show ?thesis by (auto simp: store_ok_def)
qed

lemma idEdges_Image:
  assumes st: "store_ok d" and v: "vertexValues d i = Some v"
  shows "idEdges d `` {i} = idOf d ` (edges d `` {hashVertex d v})"
proof (intro set_eqI iffI)
  fix j assume "j \<in> idEdges d `` {i}"
  then obtain a b where i: "i = idOf d a" and j: "j = idOf d b" and ab: "(a, b) \<in> edges d"
    by (auto simp: idEdges_def)
  from st ab have "a \<in> dom (vertices d)" by (auto simp: store_ok_def)
  from store_ok_key_of_id [OF st this] v i have "hashVertex d v = a" by simp
  with ab j show "j \<in> idOf d ` (edges d `` {hashVertex d v})" by auto
next
  fix j assume "j \<in> idOf d ` (edges d `` {hashVertex d v})"
  then obtain b where j: "j = idOf d b" and e: "(hashVertex d v, b) \<in> edges d" by auto
  from st have idx: "index_ok d" by (simp add: store_ok_def)
  from index_ok_live [OF idx v] have "idOf d (hashVertex d v) = i" by (rule idOf_live)
  with e j have "(i, j) \<in> idEdges d" by (force simp: idEdges_def)
  then show "j \<in> idEdges d `` {i}" by simp
qed

lemma idEdges_converse_Image:
  assumes st: "store_ok d" and v: "vertexValues d i = Some v"
  shows "(idEdges d)\<inverse> `` {i} = idOf d ` ((edges d)\<inverse> `` {hashVertex d v})"
proof (intro set_eqI iffI)
  fix j assume "j \<in> (idEdges d)\<inverse> `` {i}"
  then obtain a b where i: "i = idOf d b" and j: "j = idOf d a" and ab: "(a, b) \<in> edges d"
    by (auto simp: idEdges_def)
  from st ab have "b \<in> dom (vertices d)" by (auto simp: store_ok_def)
  from store_ok_key_of_id [OF st this] v i have "hashVertex d v = b" by simp
  with ab j show "j \<in> idOf d ` ((edges d)\<inverse> `` {hashVertex d v})" by auto
next
  fix j assume "j \<in> idOf d ` ((edges d)\<inverse> `` {hashVertex d v})"
  then obtain a where j: "j = idOf d a" and e: "(a, hashVertex d v) \<in> edges d" by auto
  from st have idx: "index_ok d" by (simp add: store_ok_def)
  from index_ok_live [OF idx v] have "idOf d (hashVertex d v) = i" by (rule idOf_live)
  with e j have "(j, i) \<in> idEdges d" by (force simp: idEdges_def)
  then show "j \<in> (idEdges d)\<inverse> `` {i}" by simp
qed

lemma at_inbound_edges:
  assumes st: "store_ok d"
  shows "at (inboundEdge d) k = (edges d)\<inverse> `` {k}"
  using st by (auto simp: store_ok_def symmetric_adj_def edges_def)

lemma idEdges_no_value:
  assumes st: "store_ok d" and v: "vertexValues d i = None"
  shows "idEdges d `` {i} = {}" and "(idEdges d)\<inverse> `` {i} = {}"
  using idEdges_sub [OF st] v by (auto simp: dom_def)

lemma idEdges_empty_id:
  assumes st: "store_ok d"
  shows "idEdges d `` {[]} = {}" and "(idEdges d)\<inverse> `` {[]} = {}"
  using idEdges_nonempty [OF st] by auto

lemma getChildren_idEdges:
  assumes st: "store_ok d"
  shows "fst (getChildren d i) = idEdges d `` {i}"
proof (cases "i = []")
  case True
  then show ?thesis using idEdges_empty_id(1) [OF st] by (simp add: getChildren_def saneID_def)
next
  case ne: False
  show ?thesis
  proof (cases "vertexValues d i")
    case None
    then show ?thesis using ne idEdges_no_value(1) [OF st None]
      by (simp add: getChildren_def saneID_def)
  next
    case (Some v)
    then show ?thesis using ne idEdges_Image [OF st Some]
      by (simp add: getChildren_def saneID_def at_outbound_edges)
  qed
qed

lemma GetParents_idEdges:
  assumes st: "store_ok d"
  shows "fst (GetParents d i) = (idEdges d)\<inverse> `` {i}"
proof (cases "i = []")
  case True
  then show ?thesis using idEdges_empty_id(2) [OF st] by (simp add: GetParents_def saneID_def)
next
  case ne: False
  show ?thesis
  proof (cases "vertexValues d i")
    case None
    then show ?thesis using ne idEdges_no_value(2) [OF st None]
      by (simp add: GetParents_def saneID_def)
  next
    case (Some v)
    then show ?thesis using ne idEdges_converse_Image [OF st Some]
      by (simp add: GetParents_def saneID_def at_inbound_edges [OF st])
  qed
qed

lemma getRoots_sub:
  assumes st: "store_ok d"
  shows "getRoots d \<subseteq> dom (vertexValues d)"
proof
  fix i assume "i \<in> getRoots d"
  then obtain k where "k \<in> dom (vertices d)" and "i = idOf d k"
    by (auto simp: getRoots_def keysWhere_def)
  with store_ok_id_has_value [OF st] show "i \<in> dom (vertexValues d)" by auto
qed

lemma getRoots_ready:
  assumes st: "store_ok d" and i: "i \<in> dom (vertexValues d)" and r: "ready (idEdges d) {} i"
  shows "i \<in> getRoots d"
proof -
  from i obtain v where v: "vertexValues d i = Some v" by auto
  let ?k = "hashVertex d v"
  from st have idx: "index_ok d" by (simp add: store_ok_def)
  have live: "vertices d ?k = Some i" using idx v by (rule index_ok_live)
  have "at (inboundEdge d) ?k = {}"
  proof (rule ccontr)
    assume "at (inboundEdge d) ?k \<noteq> {}"
    then obtain a where "(a, ?k) \<in> edges d" by (auto simp: at_inbound_edges [OF st])
    then have "(idOf d a, idOf d ?k) \<in> idEdges d" by (force simp: idEdges_def)
    with live have "(idOf d a, i) \<in> idEdges d" by (simp add: idOf_def)
    with r show False by (auto simp: ready_def)
  qed
  with live have "?k \<in> keysWhere (\<lambda>vHash. at (inboundEdge d) vHash = {}) (vertices d)"
    by (auto simp: keysWhere_def)
  moreover from live have "idOf d ?k = i" by (rule idOf_live)
  ultimately show ?thesis unfolding getRoots_def by (metis imageI)
qed

lemma store_ok_finite_values:
  assumes st: "store_ok d"
  shows "finite (dom (vertexValues d))"
proof -
  from st have idx: "index_ok d" and fin: "finite (dom (vertices d))"
    by (simp_all add: store_ok_def)
  have "dom (vertexValues d) \<subseteq> idOf d ` dom (vertices d)"
  proof
    fix i assume "i \<in> dom (vertexValues d)"
    then obtain v where v: "vertexValues d i = Some v" by auto
    from index_ok_live [OF idx v] have "vertices d (hashVertex d v) = Some i" .
    then have "hashVertex d v \<in> dom (vertices d)" "idOf d (hashVertex d v) = i"
      by (auto simp: idOf_def)
    then show "i \<in> idOf d ` dom (vertices d)" by (metis imageI)
  qed
  with fin show ?thesis by (meson finite_imageI finite_subset)
qed

lemma idOf_inj_on_live:
  assumes st: "store_ok d"
  shows "inj_on (idOf d) (dom (vertices d))"
proof (rule inj_onI)
  fix a b assume a: "a \<in> dom (vertices d)" and b: "b \<in> dom (vertices d)"
    and e: "idOf d a = idOf d b"
  from store_ok_id_has_value [OF st a] obtain v where v: "vertexValues d (idOf d a) = Some v" ..
  from store_ok_key_of_id [OF st a v] have "hashVertex d v = a" .
  moreover from v e have "vertexValues d (idOf d b) = Some v" by simp
  from store_ok_key_of_id [OF st b this] have "hashVertex d v = b" .
  ultimately show "a = b" by simp
qed

lemma idEdges_trancl:
  assumes st: "store_ok d" and p: "(x, y) \<in> (idEdges d)\<^sup>+"
  shows "\<exists>a b. x = idOf d a \<and> y = idOf d b \<and> (a, b) \<in> (edges d)\<^sup>+
           \<and> a \<in> dom (vertices d) \<and> b \<in> dom (vertices d)"
  using p
proof (induction rule: trancl_induct)
  case (base y)
  then obtain a b where "x = idOf d a" "y = idOf d b" and ab: "(a, b) \<in> edges d"
    by (auto simp: idEdges_def)
  moreover from st ab have "a \<in> dom (vertices d)" "b \<in> dom (vertices d)"
    by (auto simp: store_ok_def)
  ultimately show ?case using ab by blast
next
  case (step y z)
  from step.IH obtain a b where x: "x = idOf d a" and y: "y = idOf d b"
    and ab: "(a, b) \<in> (edges d)\<^sup>+" and la: "a \<in> dom (vertices d)" and lb: "b \<in> dom (vertices d)"
    by blast
  from step.hyps(2) obtain b' c where y': "y = idOf d b'" and z: "z = idOf d c"
    and bc: "(b', c) \<in> edges d" by (auto simp: idEdges_def)
  from st bc have lb': "b' \<in> dom (vertices d)" and lc: "c \<in> dom (vertices d)"
    by (auto simp: store_ok_def)
  from idOf_inj_on_live [OF st] lb lb' y y' have "b = b'" by (auto dest: inj_onD)
  with ab bc have "(a, c) \<in> (edges d)\<^sup>+" by (simp add: trancl_into_trancl)
  with x z la lc show ?case by blast
qed

lemma idEdges_acyclic:
  assumes st: "store_ok d"
  shows "acyclic (idEdges d)"
proof (rule acyclicI, intro allI notI)
  fix x assume "(x, x) \<in> (idEdges d)\<^sup>+"
  from idEdges_trancl [OF st this] obtain a b where e: "idOf d a = idOf d b"
    and ab: "(a, b) \<in> (edges d)\<^sup>+" and la: "a \<in> dom (vertices d)" and lb: "b \<in> dom (vertices d)"
    by metis
  from idOf_inj_on_live [OF st] la lb e have "a = b" by (auto dest: inj_onD)
  with ab st show False by (auto simp: store_ok_def acyclic_def)
qed

lemma idEdges_finite:
  assumes st: "store_ok d"
  shows "finite (idEdges d)"
  unfolding idEdges_def using store_ok_finite_edges [OF st] by (rule finite_imageI)

lemma walk_inv_start:
  assumes st: "store_ok d" and q: "set q = getRoots d"
  shows "walk_inv (idEdges d) (dom (vertexValues d)) q {} []"
  unfolding walk_inv_def using getRoots_sub [OF st] getRoots_ready [OF st] q by auto

lemma finite_getRoots:
  assumes st: "store_ok d"
  shows "finite (getRoots d)"
  using getRoots_sub [OF st] store_ok_finite_values [OF st] by (rule finite_subset)

subsection \<open>The two topological walks\<close>

lemma idEdges_before:
  assumes "\<forall>(a, b) \<in> idEdges d. before tr a b" and "(a, b) \<in> edges d"
  shows "before tr (idOf d a) (idOf d b)"
  using assms by (force simp: idEdges_def)

lemma GenericOrderedWalk_total_correct:
  assumes rng: "range_ok rngI" and st: "store_ok d"
  shows "\<exists>tr. GenericOrderedWalk rngI d = Some tr \<and> distinct tr \<and> set tr = dom (vertexValues d)
           \<and> (\<forall>(a, b) \<in> idEdges d. before tr a b)"
  unfolding GenericOrderedWalk_def
proof (rule ordered_loop_total_correct
    [where push = "\<lambda>i V'. filter (\<lambda>childID. childID \<notin> V') (vertexIDsGeneric rngI (idEdges d `` {i}))"])
  fix q V t
  show "genericOrderedLoop rngI d q V t =
        (case q of
           [] \<Rightarrow> Some t
         | i # rest \<Rightarrow>
             if i \<in> V then genericOrderedLoop rngI d rest V t
             else if \<exists>p \<in> (idEdges d)\<inverse> `` {i}. p \<notin> V then genericOrderedLoop rngI d (rest @ [i]) V t
             else genericOrderedLoop rngI d
                    (rest @ filter (\<lambda>childID. childID \<notin> insert i V)
                              (vertexIDsGeneric rngI (idEdges d `` {i})))
                    (insert i V) (t @ [i]))"
    by (subst genericOrderedLoop.simps)
      (simp only: GetParents_idEdges [OF st] getChildren_idEdges [OF st] Let_def)
next
  fix i V'
  have "finite (idEdges d `` {i})"
    using idEdges_finite [OF st] by (rule finite_Image)
  with rng have "set (rngI (idEdges d `` {i})) = idEdges d `` {i}" by (simp add: range_ok_def)
  then show "idEdges d `` {i} - V'
               \<subseteq> set (filter (\<lambda>childID. childID \<notin> V') (vertexIDsGeneric rngI (idEdges d `` {i})))
             \<and> set (filter (\<lambda>childID. childID \<notin> V') (vertexIDsGeneric rngI (idEdges d `` {i})))
               \<subseteq> idEdges d `` {i}"
    by (auto simp: vertexIDsGeneric_def)
next
  show "finite (dom (vertexValues d))" using st by (rule store_ok_finite_values)
  show "idEdges d \<subseteq> dom (vertexValues d) \<times> dom (vertexValues d)" using st by (rule idEdges_sub)
  show "acyclic (idEdges d)" using st by (rule idEdges_acyclic)
  from rng finite_getRoots [OF st] have "set (vertexIDsGeneric rngI (getRoots d)) = getRoots d"
    by (simp add: range_ok_def vertexIDsGeneric_def)
  with st show "walk_inv (idEdges d) (dom (vertexValues d)) (vertexIDsGeneric rngI (getRoots d)) {} []"
    by (rule walk_inv_start)
qed

lemma OrderedWalk_total_correct:
  assumes rng: "range_ok rngI" and st: "store_ok d"
  shows "\<exists>tr. OrderedWalk rngI d = Some tr \<and> distinct tr \<and> set tr = dom (vertexValues d)
           \<and> (\<forall>(a, b) \<in> idEdges d. before tr a b)"
  unfolding OrderedWalk_def
proof (rule ordered_loop_total_correct
    [where push = "\<lambda>i V'. vertexIDs rngI (idEdges d `` {i})"])
  fix q V t
  show "orderedLoop rngI d q V t =
        (case q of
           [] \<Rightarrow> Some t
         | i # rest \<Rightarrow>
             if i \<in> V then orderedLoop rngI d rest V t
             else if \<exists>p \<in> (idEdges d)\<inverse> `` {i}. p \<notin> V then orderedLoop rngI d (rest @ [i]) V t
             else orderedLoop rngI d (rest @ vertexIDs rngI (idEdges d `` {i}))
                    (insert i V) (t @ [i]))"
    by (subst orderedLoop.simps)
      (simp only: GetParents_idEdges [OF st] getChildren_idEdges [OF st])
next
  fix i V'
  have "finite (idEdges d `` {i})"
    using idEdges_finite [OF st] by (rule finite_Image)
  with rng have "set (rngI (idEdges d `` {i})) = idEdges d `` {i}" by (simp add: range_ok_def)
  then show "idEdges d `` {i} - V' \<subseteq> set (vertexIDs rngI (idEdges d `` {i}))
             \<and> set (vertexIDs rngI (idEdges d `` {i})) \<subseteq> idEdges d `` {i}"
    by (auto simp: vertexIDs_def)
next
  show "finite (dom (vertexValues d))" using st by (rule store_ok_finite_values)
  show "idEdges d \<subseteq> dom (vertexValues d) \<times> dom (vertexValues d)" using st by (rule idEdges_sub)
  show "acyclic (idEdges d)" using st by (rule idEdges_acyclic)
  from rng finite_getRoots [OF st] have "set (vertexIDs rngI (getRoots d)) = getRoots d"
    by (simp add: range_ok_def vertexIDs_def)
  with st show "walk_inv (idEdges d) (dom (vertexValues d)) (vertexIDs rngI (getRoots d)) {} []"
    by (rule walk_inv_start)
qed

section \<open>The loop check of AddEdge\<close>

lemma chain_edges:
  "edges chain = {(''1'', ''2''), (''2'', ''3''), (''3'', ''4''), (''4'', ''5'')}"
  by (auto simp: edges_def chain_def at_def split: if_splits)

lemma chain_reach: "(''1'', ''5'') \<in> (edges chain)\<^sup>+"
proof -
  have "(''1'', ''2'') \<in> edges chain" "(''2'', ''3'') \<in> edges chain"
    "(''3'', ''4'') \<in> edges chain" "(''4'', ''5'') \<in> edges chain"
    by (simp_all add: chain_edges)
  then show ?thesis by (meson trancl.intros)
qed

text \<open>
  Claim C1. For a store with finitely many edges and live, distinct, non-empty ids \<open>srcID\<close>
  and \<open>dstID\<close> that are not yet joined by an edge, \<open>AddEdge\<close> returns the loop error exactly
  when the key of \<open>srcID\<close> can be reached from the key of \<open>dstID\<close> along outbound edges. This
  is what the breadth-first search of \<open>wouldCreateLoop\<close> answers, and the store that comes with
  the loop error is the store before the call. On a store that satisfies the invariants the
  call returns in either case.
\<close>

theorem AddEdge_loop_error_iff_reachable:
  fixes d :: "('k, 'v) GenericDAG"
  assumes "range_ok rng" and "finite (edges d)"
    and "vertexValues d srcID = Some src" and "vertexValues d dstID = Some dst"
    and "srcID \<noteq> []" and "dstID \<noteq> []" and "srcID \<noteq> dstID"
    and "\<not> isEdge d (hashVertex d src) (hashVertex d dst)"
  shows "(AddEdge rng d srcID dstID = Some (Some (EdgeLoopError srcID dstID), d)
            \<longleftrightarrow> (hashVertex d dst, hashVertex d src) \<in> (edges d)\<^sup>+)
       \<and> (\<forall>d'. AddEdge rng d srcID dstID = Some (Some (EdgeLoopError srcID dstID), d')
              \<longrightarrow> d' = d)
       \<and> wouldCreateLoop rng d (hashVertex d src) (hashVertex d dst)
            = Some ((hashVertex d dst, hashVertex d src) \<in> (edges d)\<^sup>+)
       \<and> (store_ok d \<and> cache_ok d \<longrightarrow> (\<exists>e d'. AddEdge rng d srcID dstID = Some (e, d')))"
proof -
  let ?s = "hashVertex d src" and ?t = "hashVertex d dst"
  have wl: "wouldCreateLoop rng d ?s ?t = Some ((?t, ?s) \<in> (edges d)\<^sup>+)"
    using assms(1,2) by (rule wouldCreateLoop_correct)
  have unf: "AddEdge rng d srcID dstID =
      (if (?t, ?s) \<in> (edges d)\<^sup>+ then Some (Some (EdgeLoopError srcID dstID), d)
       else do {
         (descendants, d1) \<leftarrow> getDescendants rng d ?t;
         (ancestors, d2) \<leftarrow> getAncestors rng d1 ?s;
         Some (None,
           d2\<lparr>outboundEdge := insertIn (outboundEdge d2) ?s ?t,
              inboundEdge := insertIn (inboundEdge d2) ?t ?s,
              ancestorsCache := (deleteKeys (ancestorsCache d2) descendants)(?t := None),
              descendantsCache := (deleteKeys (descendantsCache d2) ancestors)(?s := None)\<rparr>)
       })"
    using assms(3-8) wl by (simp add: AddEdge_def saneID_def Let_def)
  have a: "AddEdge rng d srcID dstID = Some (Some (EdgeLoopError srcID dstID), d')
             \<longleftrightarrow> (?t, ?s) \<in> (edges d)\<^sup>+ \<and> d' = d" for d'
    unfolding unf by (auto split: bind_splits)
  have b: "store_ok d \<and> cache_ok d \<longrightarrow> (\<exists>e d'. AddEdge rng d srcID dstID = Some (e, d'))"
  proof
    assume "store_ok d \<and> cache_ok d"
    then have "store_ok d" "cache_ok d" by simp_all
    from AddEdge_ok [OF assms(1) this, of srcID dstID]
    show "\<exists>e d'. AddEdge rng d srcID dstID = Some (e, d')" by metis
  qed
  from a wl b show ?thesis by simp
qed

theorem AddEdge_loop_error_iff_reachable_witness:
  "AddEdge sorted_list_of_set chain ''5'' ''1'' = Some (Some (EdgeLoopError ''5'' ''1''), chain)
   \<and> performAll sorted_list_of_set sorted_list_of_set (NewGenericDAG (\<lambda>v. v)) chainCalls
       = Some chain"
proof -
  have fin: "finite (edges chain)" by (simp add: chain_edges)
  have v: "vertexValues chain ''5'' = Some ''5''" "vertexValues chain ''1'' = Some ''1''"
    by (simp_all add: chain_def)
  have ne: "\<not> isEdge chain (hashVertex chain ''5'') (hashVertex chain ''1'')"
    by (simp add: isEdge_def chain_def hashVertex_def)
  have h: "hashVertex chain ''5'' = ''5''" "hashVertex chain ''1'' = ''1''"
    by (simp_all add: hashVertex_def chain_def)
  from AddEdge_loop_error_iff_reachable [OF range_ok_sorted_list_of_set fin v _ _ _ ne]
    chain_reach h chain_built
  show ?thesis by simp
qed

section \<open>Invariants after any sequence of calls\<close>

text \<open>
  Claim C2. Every finite sequence of calls on a new graph runs to its end, and in the store
  it leaves the two adjacency maps mirror each other: \<open>b\<close> is in \<open>outboundEdge[a]\<close> exactly
  when \<open>a\<close> is in \<open>inboundEdge[b]\<close>.
\<close>

theorem adjacency_symmetric_after_calls:
  fixes h :: "'v \<Rightarrow> 'k"
  assumes "range_ok rng"
  shows "\<exists>d. performAll rng rngI (NewGenericDAG h) cs = Some d
           \<and> (\<forall>a b. b \<in> at (outboundEdge d) a \<longleftrightarrow> a \<in> at (inboundEdge d) b)"
proof -
  from performAll_ok [OF assms NewGenericDAG_ok] obtain d where
    p: "performAll rng rngI (NewGenericDAG h) cs = Some d" and s: "store_ok d" by blast
  from s have "symmetric_adj d" by (simp add: store_ok_def)
  then have "\<forall>a b. b \<in> at (outboundEdge d) a \<longleftrightarrow> a \<in> at (inboundEdge d) b"
    by (simp add: symmetric_adj_def)
  with p show ?thesis by blast
qed

theorem adjacency_symmetric_after_calls_witness:
  "performAll sorted_list_of_set sorted_list_of_set (NewGenericDAG (\<lambda>v. v)) triangleCalls
     = Some triangle
   \<and> (\<forall>a b. b \<in> at (outboundEdge triangle) a \<longleftrightarrow> a \<in> at (inboundEdge triangle) b)
   \<and> ''3'' \<in> at (outboundEdge triangle) ''1''"
  using adjacency_symmetric_after_calls [OF range_ok_sorted_list_of_set,
      of sorted_list_of_set "\<lambda>v. v" triangleCalls]
  by (simp add: triangle_built) (simp add: triangle_def at_def)

text \<open>
  Claim C3. Every finite sequence of calls on a new graph runs to its end, and in the store
  it leaves every entry of \<open>descendantsCache\<close> is the set of keys reachable from its key along
  outbound edges (the key itself left out), and every entry of \<open>ancestorsCache\<close> is the set of
  keys from which its key is reachable. This holds for every key that has an entry, live
  ones among them.
\<close>

theorem caches_correct_after_calls:
  fixes h :: "'v \<Rightarrow> 'k"
  assumes "range_ok rng"
  shows "\<exists>d. performAll rng rngI (NewGenericDAG h) cs = Some d
           \<and> (\<forall>k s. descendantsCache d k = Some s \<longrightarrow> s = {b. (k, b) \<in> (edges d)\<^sup>+})
           \<and> (\<forall>k s. ancestorsCache d k = Some s \<longrightarrow> s = {a. (a, k) \<in> (edges d)\<^sup>+})"
proof -
  from performAll_ok [OF assms NewGenericDAG_ok] obtain d where
    p: "performAll rng rngI (NewGenericDAG h) cs = Some d" and c: "cache_ok d" by blast
  from c have "(\<forall>k s. descendantsCache d k = Some s \<longrightarrow> s = {b. (k, b) \<in> (edges d)\<^sup>+})
           \<and> (\<forall>k s. ancestorsCache d k = Some s \<longrightarrow> s = {a. (a, k) \<in> (edges d)\<^sup>+})"
    by (simp add: cache_ok_def)
  with p show ?thesis by blast
qed

theorem caches_correct_after_calls_witness:
  "performAll sorted_list_of_set sorted_list_of_set (NewGenericDAG (\<lambda>v. v)) cachedCalls
     = Some cached
   \<and> descendantsCache cached ''a'' = Some {''b''}
   \<and> {b. (''a'', b) \<in> (edges cached)\<^sup>+} = {''b''}
   \<and> ancestorsCache cached ''b'' = Some {''a''}
   \<and> {a. (a, ''b'') \<in> (edges cached)\<^sup>+} = {''a''}"
proof -
  have d: "descendantsCache cached ''a'' = Some {''b''}"
    and a: "ancestorsCache cached ''b'' = Some {''a''}"
    by (simp_all add: cached_def)
  from caches_correct_after_calls [OF range_ok_sorted_list_of_set,
      of sorted_list_of_set "\<lambda>v. v" cachedCalls]
  obtain c where p: "performAll sorted_list_of_set sorted_list_of_set
        (NewGenericDAG (\<lambda>v. v)) cachedCalls = Some c"
    and dc: "\<forall>k s. descendantsCache c k = Some s \<longrightarrow> s = {b. (k, b) \<in> (edges c)\<^sup>+}"
    and ac: "\<forall>k s. ancestorsCache c k = Some s \<longrightarrow> s = {a. (a, k) \<in> (edges c)\<^sup>+}"
    by (elim exE conjE)
  from p cached_built have c: "c = cached" by simp
  from dc [unfolded c, rule_format, OF d] ac [unfolded c, rule_format, OF a] d a cached_built
  show ?thesis by simp
qed

section \<open>Transitive reduction\<close>

lemma idOf_cache_upd [simp]:
  "idOf (d\<lparr>descendantsCache := c\<rparr>) = idOf d"
  "idOf (d\<lparr>ancestorsCache := c\<rparr>) = idOf d"
  by (simp_all add: idOf_def fun_eq_iff)

lemma GetDescendants_result:
  fixes d :: "('k, 'v) GenericDAG"
  assumes rng: "range_ok rng" and st: "store_ok d" and ca: "cache_ok d"
  shows "map_option fst (GetDescendants rng d i) =
           Some (case saneID d i of
                   Some e \<Rightarrow> ({}, Some e)
                 | None \<Rightarrow>
                     (case vertexValues d i of
                        Some v \<Rightarrow> (idOf d ` {b. (hashVertex d v, b) \<in> (edges d)\<^sup>+}, None)
                      | None \<Rightarrow> ({}, Some (IDUnknownError i))))"
proof (cases "saneID d i")
  case (Some e)
  then show ?thesis by (simp add: GetDescendants_def)
next
  case None
  then obtain v where v: "vertexValues d i = Some v"
    by (auto simp: saneID_def split: if_splits option.splits)
  show ?thesis
  proof (rule getDescendants_ok [OF rng st ca, of "hashVertex d v"])
    fix c assume "getDescendants rng d (hashVertex d v)
       = Some ({b. (hashVertex d v, b) \<in> (edges d)\<^sup>+}, d\<lparr>descendantsCache := c\<rparr>)"
    with None v show ?thesis by (simp add: GetDescendants_def)
  qed
qed

text \<open>
  Claim C7. On a store that satisfies the invariants \<open>ReduceTransitively\<close> returns, the keys
  reachable from any key are the same before and after the call, and so is the answer of
  \<open>GetDescendants\<close> for every id.
\<close>

theorem ReduceTransitively_keeps_descendants:
  fixes d :: "('k, 'v) GenericDAG"
  assumes "range_ok rng" and "store_ok d" and "cache_ok d"
  shows "\<exists>d'. ReduceTransitively rng rngI d = Some d'
           \<and> (\<forall>k. {b. (k, b) \<in> (edges d')\<^sup>+} = {b. (k, b) \<in> (edges d)\<^sup>+})
           \<and> (\<forall>i. map_option fst (GetDescendants rng d' i)
                    = map_option fst (GetDescendants rng d i))"
proof (rule ReduceTransitively_ok [OF assms, of rngI])
  fix d' assume r: "ReduceTransitively rng rngI d = Some d'"
    and ok: "store_ok d'" "cache_ok d'"
    and same: "options d' = options d" "vertices d' = vertices d"
      "vertexValues d' = vertexValues d"
    and tr: "(edges d')\<^sup>+ = (edges d)\<^sup>+"
  have "saneID d' = saneID d" "idOf d' = idOf d" "hashVertex d' = hashVertex d"
    using same by (simp_all add: saneID_def idOf_def hashVertex_def fun_eq_iff)
  then have "map_option fst (GetDescendants rng d' i) = map_option fst (GetDescendants rng d i)"
    for i
    unfolding GetDescendants_result [OF assms] GetDescendants_result [OF assms(1) ok]
    by (simp add: same tr cong: option.case_cong)
  with r tr show ?thesis by simp
qed

theorem ReduceTransitively_keeps_descendants_witness:
  "ReduceTransitively sorted_list_of_set sorted_list_of_set triangle = Some triangleReduced
   \<and> getSize triangle = 3 \<and> getSize triangleReduced = 2
   \<and> IsEdge triangle ''1'' ''3'' = (True, None)
   \<and> IsEdge triangleReduced ''1'' ''3'' = (False, None)
   \<and> IsEdge triangleReduced ''1'' ''2'' = (True, None)
   \<and> IsEdge triangleReduced ''2'' ''3'' = (True, None)
   \<and> map_option fst (GetDescendants sorted_list_of_set triangle ''1'')
       = Some ({''2'', ''3''}, None)
   \<and> map_option fst (GetDescendants sorted_list_of_set triangleReduced ''1'')
       = Some ({''2'', ''3''}, None)"
proof -
  let ?r = "sorted_list_of_set :: string set \<Rightarrow> string list"
  note ok = built_ok [OF range_ok_sorted_list_of_set triangle_built]
  from ReduceTransitively_keeps_descendants [OF range_ok_sorted_list_of_set ok, of ?r]
  have keep: "map_option fst (GetDescendants ?r triangleReduced ''1'')
                = map_option fst (GetDescendants ?r triangle ''1'')"
    by (simp add: triangle_reduced)
  have before: "map_option fst (GetDescendants ?r triangle ''1'') = Some ({''2'', ''3''}, None)"
  proof -
    have "map_option fst (GetDescendants ?r triangle ''1'')
            = Some (idOf triangle ` {''3'', ''2'', ''3''}, None)"
      by (simp add: triangle_def eval_defs) (simp add: idOf_def)
    also have "idOf triangle ` {''3'', ''2'', ''3''} = {''2'', ''3''}"
      by (auto simp: idOf_def triangle_def)
    finally show ?thesis .
  qed
  have size: "getSize triangle = 3" "getSize triangleReduced = 2"
    by (simp_all add: getSize_def triangle_def triangleReduced_def at_def)
  have e: "IsEdge triangle ''1'' ''3'' = (True, None)"
    "IsEdge triangleReduced ''1'' ''3'' = (False, None)"
    "IsEdge triangleReduced ''1'' ''2'' = (True, None)"
    "IsEdge triangleReduced ''2'' ''3'' = (True, None)"
    by (simp_all add: IsEdge_def saneID_def isEdge_def hashVertex_def triangle_def
        triangleReduced_def)
  from keep before size e triangle_reduced show ?thesis by simp
qed

section \<open>Error outcomes of the mutations\<close>

lemma oneVertex_vertexValues: "vertexValues oneVertex = [''a'' \<mapsto> ''a'']"
  by (simp add: oneVertex_def AddVertexByID_def addVertexByID_def NewGenericDAG_def
      hashVertex_def)

lemma oneVertex_vertices: "vertices oneVertex = [''a'' \<mapsto> ''a'']"
  by (simp add: oneVertex_def AddVertexByID_def addVertexByID_def NewGenericDAG_def
      hashVertex_def)

lemma oneVertex_options: "options oneVertex = (\<lambda>v. v)"
  by (simp add: oneVertex_def AddVertexByID_def addVertexByID_def NewGenericDAG_def
      hashVertex_def)

text \<open>
  Claim C9. For a live vertex with a non-empty id \<open>x\<close>, both \<open>DeleteEdge(x, x)\<close> and
  \<open>IsEdge(x, x)\<close> answer with \<open>SrcDstEqualError\<close>, which is not the unknown-edge error, and
  \<open>DeleteEdge\<close> leaves the store as it was.
\<close>

theorem same_id_is_SrcDstEqualError:
  assumes "vertexValues d x = Some v" and "x \<noteq> []"
  shows "DeleteEdge rng d x x = Some (Some (SrcDstEqualError x x), d)
       \<and> IsEdge d x x = (False, Some (SrcDstEqualError x x))
       \<and> SrcDstEqualError x x \<noteq> (EdgeUnknownError x x :: 'v error)"
  using assms by (simp add: DeleteEdge_def IsEdge_def saneID_def)

theorem same_id_is_SrcDstEqualError_witness:
  "DeleteEdge sorted_list_of_set oneVertex ''a'' ''a''
     = Some (Some (SrcDstEqualError ''a'' ''a''), oneVertex)
   \<and> IsEdge oneVertex ''a'' ''a'' = (False, Some (SrcDstEqualError ''a'' ''a''))"
  using same_id_is_SrcDstEqualError [of oneVertex "''a''" "''a''" sorted_list_of_set]
  by (simp add: oneVertex_vertexValues)

text \<open>
  Claim C8. Whenever \<open>AddVertex\<close>, \<open>AddVertexByID\<close>, \<open>AddEdge\<close>, \<open>DeleteEdge\<close> or
  \<open>DeleteVertex\<close> returns an error, the store after the call (both vertex indices, both
  adjacency maps and both caches) is the store before the call.
\<close>

theorem mutation_error_leaves_store:
  "(AddVertex newID d v = ((i1, Some e1), d1) \<longrightarrow> d1 = d)
   \<and> (AddVertexByID d i v = (Some e2, d2) \<longrightarrow> d2 = d)
   \<and> (AddEdge rng d srcID dstID = Some (Some e3, d3) \<longrightarrow> d3 = d)
   \<and> (DeleteEdge rng d srcID dstID = Some (Some e4, d4) \<longrightarrow> d4 = d)
   \<and> (DeleteVertex rng d j = Some (Some e5, d5) \<longrightarrow> d5 = d)"
proof (intro conjI impI)
  assume "AddVertex newID d v = ((i1, Some e1), d1)"
  then show "d1 = d"
    by (auto simp: AddVertex_def addVertex_def addVertexByID_def Let_def split: if_splits)
next
  assume "AddVertexByID d i v = (Some e2, d2)"
  then show "d2 = d"
    by (auto simp: AddVertexByID_def addVertexByID_def Let_def split: if_splits)
next
  assume "AddEdge rng d srcID dstID = Some (Some e3, d3)"
  then show "d3 = d"
    by (auto simp: AddEdge_def Let_def split: option.splits if_splits prod.splits bind_splits)
next
  assume "DeleteEdge rng d srcID dstID = Some (Some e4, d4)"
  then show "d4 = d"
    by (auto simp: DeleteEdge_def Let_def split: option.splits if_splits prod.splits bind_splits)
next
  assume "DeleteVertex rng d j = Some (Some e5, d5)"
  then show "d5 = d"
    by (auto simp: DeleteVertex_def Let_def split: option.splits if_splits prod.splits bind_splits)
qed


theorem mutation_error_leaves_store_witness:
  "snd (AddVertex ''z'' oneVertex ''a'') = oneVertex
   \<and> snd (AddVertexByID oneVertex ''a'' ''b'') = oneVertex
   \<and> AddEdge sorted_list_of_set oneVertex ''a'' ''a''
       = Some (Some (SrcDstEqualError ''a'' ''a''), oneVertex)
   \<and> DeleteEdge sorted_list_of_set oneVertex ''a'' ''b''
       = Some (Some (IDUnknownError ''b''), oneVertex)
   \<and> DeleteVertex sorted_list_of_set oneVertex [] = Some (Some IDEmptyError, oneVertex)"
proof -
  let ?r = "sorted_list_of_set :: string set \<Rightarrow> string list"
  obtain d1 where a1: "AddVertex ''z'' oneVertex ''a''
                         = ((''z'', Some (VertexDuplicateError ''a'')), d1)"
    by (simp add: AddVertex_def addVertex_def addVertexByID_def hashVertex_def
        oneVertex_vertices oneVertex_options)
  obtain d2 where a2: "AddVertexByID oneVertex ''a'' ''b'' = (Some (IDDuplicateError ''a''), d2)"
    by (simp add: AddVertexByID_def addVertexByID_def hashVertex_def
        oneVertex_vertices oneVertex_options oneVertex_vertexValues)
  obtain d3 where a3: "AddEdge ?r oneVertex ''a'' ''a''
                         = Some (Some (SrcDstEqualError ''a'' ''a''), d3)"
    by (simp add: AddEdge_def saneID_def oneVertex_vertexValues)
  obtain d4 where a4: "DeleteEdge ?r oneVertex ''a'' ''b''
                         = Some (Some (IDUnknownError ''b''), d4)"
    by (simp add: DeleteEdge_def saneID_def oneVertex_vertexValues)
  obtain d5 where a5: "DeleteVertex ?r oneVertex [] = Some (Some IDEmptyError, d5)"
    by (simp add: DeleteVertex_def saneID_def)
  from mutation_error_leaves_store [of "''z''" oneVertex "''a''" "''z''" _ d1] a1
  have "d1 = oneVertex" by blast
  moreover
  from mutation_error_leaves_store [of _ oneVertex "''b''" _ _ _ "''a''" _ d2] a2
  have "d2 = oneVertex" by blast
  moreover
  from mutation_error_leaves_store [of _ oneVertex _ _ _ _ _ _ _ ?r "''a''" "''a''" _ d3] a3
  have "d3 = oneVertex" by blast
  moreover
  from mutation_error_leaves_store [of _ oneVertex _ _ _ _ _ _ _ ?r "''a''" "''b''" _ _ _ d4] a4
  have "d4 = oneVertex" by blast
  moreover
  from mutation_error_leaves_store [of _ oneVertex _ _ _ _ _ _ _ ?r _ _ _ _ _ _ "[]" _ d5] a5
  have "d5 = oneVertex" by blast
  ultimately show ?thesis
    using a1 a2 a3 a4 a5 by simp
qed

section \<open>The topological walks\<close>

lemma sharedChild_GenericOrderedWalk:
  "GenericOrderedWalk sorted_list_of_set sharedChild = Some [''a'', ''b'', ''c'', ''d'']"
  by (simp add: sharedChild_def walk_defs)

lemma sharedChild_OrderedWalk:
  "OrderedWalk sorted_list_of_set sharedChild = Some [''a'', ''b'', ''c'', ''d'']"
  by (simp add: sharedChild_def walk_defs)

lemma requeue_GenericOrderedWalk:
  "GenericOrderedWalk sorted_list_of_set requeue = Some [''a'', ''c'', ''b'']"
  by (simp add: requeue_def walk_defs)

lemma requeue_OrderedWalk:
  "OrderedWalk sorted_list_of_set requeue = Some [''a'', ''c'', ''b'']"
  by (simp add: requeue_def walk_defs)

text \<open>
  Claim C5. On a store that satisfies the invariant of the graph (it is finite and acyclic,
  the index and the two adjacency maps agree; the new graph has it and every call keeps it,
  \<open>performAll_ok\<close>), \<open>GenericOrderedWalk\<close> and \<open>OrderedWalk\<close> return,
  the ids they hand to the visitor are all different and are exactly the ids of the graph,
  and for every edge the id of its source is visited before the id of its destination.
  This holds for every order in which \<open>range\<close> lists the keys of a map.
\<close>

theorem ordered_walks_visit_once_parents_first:
  assumes "range_ok rngI" and "store_ok d"
  shows "(\<exists>tr. GenericOrderedWalk rngI d = Some tr \<and> distinct tr
             \<and> set tr = dom (vertexValues d)
             \<and> (\<forall>(a, b) \<in> edges d. before tr (idOf d a) (idOf d b)))
       \<and> (\<exists>tr. OrderedWalk rngI d = Some tr \<and> distinct tr
             \<and> set tr = dom (vertexValues d)
             \<and> (\<forall>(a, b) \<in> edges d. before tr (idOf d a) (idOf d b)))"
proof (intro conjI)
  from GenericOrderedWalk_total_correct [OF assms] obtain tr where
    tr: "GenericOrderedWalk rngI d = Some tr" "distinct tr" "set tr = dom (vertexValues d)"
    and b: "\<forall>(a, b) \<in> idEdges d. before tr a b"
    by (elim exE conjE)
  from b have "\<forall>(a, b) \<in> edges d. before tr (idOf d a) (idOf d b)"
    by (auto intro: idEdges_before)
  with tr show "\<exists>tr. GenericOrderedWalk rngI d = Some tr \<and> distinct tr
             \<and> set tr = dom (vertexValues d)
             \<and> (\<forall>(a, b) \<in> edges d. before tr (idOf d a) (idOf d b))"
    by (intro exI [of _ tr] conjI)
next
  from OrderedWalk_total_correct [OF assms] obtain tr where
    tr: "OrderedWalk rngI d = Some tr" "distinct tr" "set tr = dom (vertexValues d)"
    and b: "\<forall>(a, b) \<in> idEdges d. before tr a b"
    by (elim exE conjE)
  from b have "\<forall>(a, b) \<in> edges d. before tr (idOf d a) (idOf d b)"
    by (auto intro: idEdges_before)
  with tr show "\<exists>tr. OrderedWalk rngI d = Some tr \<and> distinct tr
             \<and> set tr = dom (vertexValues d)
             \<and> (\<forall>(a, b) \<in> edges d. before tr (idOf d a) (idOf d b))"
    by (intro exI [of _ tr] conjI)
qed

theorem ordered_walks_visit_once_parents_first_witness:
  "range_ok (sorted_list_of_set :: vid set \<Rightarrow> vid list) \<and> store_ok sharedChild
   \<and> GenericOrderedWalk sorted_list_of_set sharedChild = Some [''a'', ''b'', ''c'', ''d'']
   \<and> OrderedWalk sorted_list_of_set sharedChild = Some [''a'', ''b'', ''c'', ''d'']
   \<and> distinct [''a'', ''b'', ''c'', ''d'']
   \<and> set [''a'', ''b'', ''c'', ''d''] = dom (vertexValues sharedChild)
   \<and> (''b'', ''c'') \<in> edges sharedChild
   \<and> before [''a'', ''b'', ''c'', ''d''] (idOf sharedChild ''b'') (idOf sharedChild ''c'')"
proof -
  have st: "store_ok sharedChild"
    using range_ok_sorted_list_of_set sharedChild_built by (rule built_ok(1))
  have e: "(''b'', ''c'') \<in> edges sharedChild"
    by (simp add: edges_def sharedChild_def at_def)
  from ordered_walks_visit_once_parents_first [OF range_ok_sorted_list_of_set st]
  obtain tr where tr: "GenericOrderedWalk sorted_list_of_set sharedChild = Some tr"
    and d: "distinct tr" and s: "set tr = dom (vertexValues sharedChild)"
    and b: "\<forall>(a, b) \<in> edges sharedChild. before tr (idOf sharedChild a) (idOf sharedChild b)"
    by (elim exE conjE)
  from tr have t: "tr = [''a'', ''b'', ''c'', ''d'']"
    by (simp add: sharedChild_GenericOrderedWalk)
  from b e have "before tr (idOf sharedChild ''b'') (idOf sharedChild ''c'')" by fast
  with d s e st range_ok_sorted_list_of_set sharedChild_GenericOrderedWalk sharedChild_OrderedWalk
  show ?thesis unfolding t by (intro conjI)
qed

text \<open>
  Claim C10. On a store that satisfies the invariant of the graph, so on a finite acyclic
  graph, the loops of \<open>GenericOrderedWalk\<close> and \<open>OrderedWalk\<close> end: each walk returns its trace.
  A walk that ran forever would have the value \<open>None\<close>.
\<close>

theorem ordered_walks_terminate:
  assumes "range_ok rngI" and "store_ok d"
  shows "(\<exists>tr. GenericOrderedWalk rngI d = Some tr) \<and> (\<exists>tr. OrderedWalk rngI d = Some tr)"
  using GenericOrderedWalk_total_correct [OF assms] OrderedWalk_total_correct [OF assms]
  by (elim exE conjE) simp

theorem ordered_walks_terminate_witness:
  "range_ok (sorted_list_of_set :: vid set \<Rightarrow> vid list) \<and> store_ok requeue
   \<and> GenericOrderedWalk sorted_list_of_set requeue = Some [''a'', ''c'', ''b'']
   \<and> OrderedWalk sorted_list_of_set requeue = Some [''a'', ''c'', ''b'']"
proof -
  have st: "store_ok requeue"
    using range_ok_sorted_list_of_set requeue_built by (rule built_ok(1))
  from ordered_walks_terminate [OF range_ok_sorted_list_of_set st]
    st range_ok_sorted_list_of_set requeue_GenericOrderedWalk requeue_OrderedWalk
  show ?thesis by simp
qed

section \<open>The depth-first walks\<close>

text \<open>
  Claim C6. The claim is that a depth-first walk visits in one order whatever the run: roots
  and children are taken in the order of their ids. \<open>DFSWalk\<close> sorts the ids and visits a
  before b on the store \<open>twoRoots\<close> for both orders of \<open>range\<close>. \<open>GenericDFSWalk\<close> takes
  the ids from \<open>vertexIDsGeneric\<close>, which does not sort: on the same store it visits a before
  b when \<open>range\<close> lists a first and b before a when \<open>range\<close> lists b first. Both orders
  of \<open>range\<close> list every key once (\<open>range_ok_sorted_list_of_set\<close>,
  \<open>range_ok_rev_sorted_list_of_set\<close>), and the store is the one that two calls of
  \<open>AddVertexByID\<close> leave (\<open>twoRoots_built\<close>).
\<close>

theorem GenericDFSWalk_follows_range_order:
  "GenericDFSWalk sorted_list_of_set twoRoots = Some [''a'', ''b'']
   \<and> GenericDFSWalk (rev \<circ> sorted_list_of_set) twoRoots = Some [''b'', ''a'']
   \<and> DFSWalk sorted_list_of_set twoRoots = Some [''a'', ''b'']
   \<and> DFSWalk (rev \<circ> sorted_list_of_set) twoRoots = Some [''a'', ''b'']"
  by (simp add: twoRoots_def walk_defs)

section \<open>Serialisation\<close>

text \<open>
  Claim C4. The claim is that parsing what \<open>MarshalJSON\<close> emits succeeds and gives the graph
  back. On the store \<open>sharedChild\<close> (the one its eight calls leave, \<open>sharedChild_built\<close>),
  with \<open>range\<close> listing b before c, the vertex c is pushed by a and again by b, and is
  popped twice; \<open>MarshalJSON\<close> calls \<open>AddEdges\<close> on every pop, so the edge from c to d is
  emitted twice, and \<open>UnmarshalGenericJSON\<close> stops at the second copy with
  \<open>EdgeDuplicateError\<close> instead of returning a graph.
\<close>

theorem MarshalJSON_output_not_parsed:
  "MarshalJSON sorted_list_of_set sharedChild = Some sharedChildStored
   \<and> UnmarshalGenericJSON sorted_list_of_set sharedChildStored (\<lambda>v. v)
       = Some (Inl (EdgeDuplicateError ''c'' ''d''))"
proof
  show "MarshalJSON sorted_list_of_set sharedChild = Some sharedChildStored"
    by (simp add: sharedChild_def sharedChildStored_def walk_defs marshal_defs)
  show "UnmarshalGenericJSON sorted_list_of_set sharedChildStored (\<lambda>v. v)
          = Some (Inl (EdgeDuplicateError ''c'' ''d''))"
    by (simp add: UnmarshalGenericJSON_def sharedChildStored_def eval_defs)
qed

end
